theory Spec2Isabelle
  imports Main "HOL-Library.AList"
begin

section \<open>Values and errors of the runtime\<close>

text \<open>
  A thrown exception is a value: \<open>Error msg\<close> for \<open>throw new Error(msg)\<close>, and
  \<open>TypeError\<close> for the engine's own failure when a property is read off \<open>null\<close> or
  \<open>undefined\<close>. Functions that can throw return \<open>error + 'a\<close>.
\<close>

datatype error = Error string | TypeError

text \<open>
  The values an argument bundle can hold. A plain object is the list of its own
  enumerable properties in \<open>for ... in\<close> order. \<open>JParameterRef name graphqlTypeName\<close> is an
  instance of \<open>ParameterRef\<close>, \<open>JStringValue value quotationMarks\<close> one of \<open>StringValue\<close>.
  A number is given by the text that \<open>Number.prototype.toString\<close> returns for it (\<open>1\<close>,
  \<open>-0.5\<close>, \<open>1e+21\<close>, \<open>NaN\<close>): the runtime tests the type of a number and writes that
  text, and does nothing else with a number, so no rendering of numbers is assumed here.
\<close>

datatype jsval =
    JUndefined
  | JNull
  | JNumber string
  | JString string
  | JBoolean bool
  | JParameterRef string "string option"
  | JStringValue string bool
  | JArray "jsval list"
  | JSet "jsval list"
  | JMap "(string \<times> jsval) list"
  | JObject "(string \<times> jsval) list"

type_synonym jsobj = "(string \<times> jsval) list"

text \<open>
  Modelled from the spec: the class \<open>ParameterRef\<close> (\<open>runtime/parameter.ts\<close>) is not among
  the sources. A deferred-variable reference is a placeholder with a name and an optional
  protocol type; \<open>ParameterRef.of(name)\<close> builds one without a type.
\<close>

definition ParameterRef_of :: "string \<Rightarrow> jsval" where
  "ParameterRef_of name = JParameterRef name None"

subsection \<open>The insertion-ordered \<open>Map\<close>\<close>

text \<open>
  A \<open>Map\<close> is an association list in insertion order with distinct keys. \<open>set\<close> on a key
  that is present replaces the value where it stands; on a new key it appends. \<open>delete\<close>
  drops the key.
\<close>

definition map_get :: "('k \<times> 'v) list \<Rightarrow> 'k \<Rightarrow> 'v option" where
  "map_get m k = map_of m k"

definition map_has :: "('k \<times> 'v) list \<Rightarrow> 'k \<Rightarrow> bool" where
  "map_has m k = (map_of m k \<noteq> None)"

definition map_set :: "'k \<Rightarrow> 'v \<Rightarrow> ('k \<times> 'v) list \<Rightarrow> ('k \<times> 'v) list" where
  "map_set k v m = AList.update k v m"

definition map_delete :: "'k \<Rightarrow> ('k \<times> 'v) list \<Rightarrow> ('k \<times> 'v) list" where
  "map_delete k m = AList.delete k m"

text \<open>A text between double quotes, as the messages of the runtime write names.\<close>

definition quoted :: "string \<Rightarrow> string" where
  "quoted s = [CHR 0x22] @ s @ [CHR 0x22]"

text \<open>\<open>String.prototype.startsWith\<close> and \<open>endsWith\<close>.\<close>

definition startsWith :: "string \<Rightarrow> string \<Rightarrow> bool" where
  "startsWith s p = (take (length p) s = p)"

definition endsWith :: "string \<Rightarrow> string \<Rightarrow> bool" where
  "endsWith s p = (length p \<le> length s \<and> drop (length s - length p) s = p)"

section \<open>Schema metadata (\<open>runtime/schema.ts\<close>)\<close>

datatype schemaTypeCategory = OBJECT | EMBEDDED | CONNECTION | EDGE

datatype schemaFieldCategory = F_ID | F_SCALAR | F_REFERENCE | F_LIST | F_CONNECTION

record schemaField =
  sf_name :: string
  sf_category :: schemaFieldCategory
  argGraphQLTypeMap :: "(string \<times> string) list"
  targetTypeName :: "string option"
  connectionTypeName :: "string option"
  edgeTypeName :: "string option"
  isPlural :: bool
  isAssociation :: bool
  isFunction :: bool
  isUndefinable :: bool

datatype schemaType =
  SchemaType (st_name: string) (st_category: schemaTypeCategory)
             (interfaces: "schemaType list") (ownFields: "(string \<times> schemaField) list")

text \<open>The input of the factory: a bare name (a scalar), or a full descriptor.\<close>

record fieldDescriptorObj =
  d_name :: string
  d_category :: schemaFieldCategory
  d_undefinable :: "bool option"
  d_argGraphQLTypeMap :: "(string \<times> string) list option"
  d_targetTypeName :: "string option"
  d_connectionTypeName :: "string option"
  d_edgeTypeName :: "string option"

datatype fieldDescriptor = DescString string | DescObject fieldDescriptorObj

definition buildField ::
  "string \<Rightarrow> schemaFieldCategory \<Rightarrow> (string \<times> string) list \<Rightarrow> string option \<Rightarrow>
   string option \<Rightarrow> string option \<Rightarrow> bool option \<Rightarrow> schemaField" where
  "buildField name category argMap target conn edge undefinable =
     (let plural = (category = F_LIST \<or> category = F_CONNECTION);
          assoc = (category = F_REFERENCE \<or> plural)
      in \<lparr> sf_name = name, sf_category = category, argGraphQLTypeMap = argMap,
           targetTypeName = target, connectionTypeName = conn, edgeTypeName = edge,
           isPlural = plural, isAssociation = assoc,
           isFunction = (argMap \<noteq> [] \<or> assoc \<or> target \<noteq> None),
           isUndefinable = (case undefinable of None \<Rightarrow> False | Some b \<Rightarrow> b) \<rparr>)"

text \<open>The loop of \<open>createSchemaType\<close> over the declared fields, filling \<open>declaredFieldMap\<close>.\<close>

fun declareFields ::
  "fieldDescriptor list \<Rightarrow> (string \<times> schemaField) list \<Rightarrow> (string \<times> schemaField) list" where
  "declareFields [] m = m"
| "declareFields (DescString desc # ds) m =
     declareFields ds (map_set desc (buildField desc F_SCALAR [] None None None None) m)"
| "declareFields (DescObject desc # ds) m =
     declareFields ds
       (map_set (d_name desc)
          (buildField (d_name desc) (d_category desc)
             (case d_argGraphQLTypeMap desc of None \<Rightarrow> []
              | Some am \<Rightarrow> foldl (\<lambda>acc (k, ty). map_set k ty acc) [] am)
             (d_targetTypeName desc) (d_connectionTypeName desc) (d_edgeTypeName desc)
             (d_undefinable desc)) m)"

definition validateType ::
  "string \<Rightarrow> schemaTypeCategory \<Rightarrow> (string \<times> schemaField) list \<Rightarrow> schemaType list \<Rightarrow>
   error + unit" where
  "validateType name category declaredFields superTypes =
     (case (if category = CONNECTION then
              (case map_get declaredFields ''edges'' of
                 None \<Rightarrow> Inl (Error (''Type '' @ quoted name @ '': CONNECTION must have an '' @ quoted ''edges'' @ '' field''))
               | Some edges \<Rightarrow>
                   if sf_category edges \<noteq> F_LIST
                   then Inl (Error (''Type '' @ quoted name @ '': CONNECTION '' @ quoted ''edges'' @ '' must be LIST''))
                   else Inr ())
            else if category = EDGE then
              (case map_get declaredFields ''node'' of
                 None \<Rightarrow> Inl (Error (''Type '' @ quoted name @ '': EDGE must have a '' @ quoted ''node'' @ '' field''))
               | Some node \<Rightarrow>
                   if sf_category node \<noteq> F_REFERENCE
                   then Inl (Error (''Type '' @ quoted name @ '': EDGE '' @ quoted ''node'' @ '' must be REFERENCE''))
                   else (case map_get declaredFields ''cursor'' of
                           None \<Rightarrow> Inr ()
                         | Some cursor \<Rightarrow>
                             if sf_category cursor \<noteq> F_SCALAR
                             then Inl (Error (''Type '' @ quoted name @ '': EDGE '' @ quoted ''cursor'' @ '' must be SCALAR''))
                             else Inr ()))
            else Inr ()) of
        Inl e \<Rightarrow> Inl e
      | Inr u \<Rightarrow>
          if (category = CONNECTION \<or> category = EDGE) \<and> superTypes \<noteq> []
          then Inl (Error (''Type '' @ quoted name @ '': '' @
                 (if category = CONNECTION then ''CONNECTION'' else ''EDGE'') @
                 '' cannot have super types''))
          else Inr ())"

text \<open>
  \<open>_collect(type, out)\<close>: the type's own fields are written into \<open>out\<close> first, then every
  supertype is collected into the same table, in order.
\<close>

fun collect :: "schemaType \<Rightarrow> (string \<times> schemaField) list \<Rightarrow> (string \<times> schemaField) list"
and collectSupers :: "schemaType list \<Rightarrow> (string \<times> schemaField) list \<Rightarrow> (string \<times> schemaField) list" where
  "collect (SchemaType n c supers own) out =
     collectSupers supers (foldl (\<lambda>acc (name, field). map_set name field acc) out own)"
| "collectSupers [] out = out"
| "collectSupers (superType # rest) out = collectSupers rest (collect superType out)"

definition collectFields :: "schemaType \<Rightarrow> (string \<times> schemaField) list" where
  "collectFields type = collect type []"

text \<open>
  What the getter \<open>fields\<close> computes on first access:
  \<open>superTypes.length === 0 ? declaredFieldMap : collectFields(result)\<close>.
\<close>

definition fields_of :: "schemaType \<Rightarrow> (string \<times> schemaField) list" where
  "fields_of type = (if interfaces type = [] then ownFields type else collectFields type)"

subsection \<open>The factory and its lazily cached merged table\<close>

text \<open>
  The process-wide registry \<open>SCHEMA_TYPE_REGISTRY\<close> is passed explicitly. A re-registration
  replaces the stored type only when the new one declares more own fields. (The registry
  of lazy factories is left out: nothing below resolves a type through a factory.)
\<close>

type_synonym registry = "(string \<times> schemaType) list"

definition registerSchemaType :: "registry \<Rightarrow> schemaType \<Rightarrow> registry" where
  "registerSchemaType reg type =
     (case map_get reg (st_name type) of
        None \<Rightarrow> map_set (st_name type) type reg
      | Some existing \<Rightarrow>
          if length (ownFields existing) < length (ownFields type)
          then map_set (st_name type) type reg else reg)"

definition resolveRegisteredSchemaType :: "registry \<Rightarrow> string \<Rightarrow> schemaType option" where
  "resolveRegisteredSchemaType reg typeName = map_get reg typeName"

text \<open>
  The object \<open>createSchemaType\<close> returns: its read-only members, and the closure variable
  \<open>_fields\<close> that the getter \<open>fields\<close> fills on first access.
\<close>

record schemaTypeObj =
  the_type :: schemaType
  fields_cache :: "(string \<times> schemaField) list option"

definition createSchemaType ::
  "registry \<Rightarrow> string \<Rightarrow> schemaTypeCategory \<Rightarrow> schemaType list \<Rightarrow> fieldDescriptor list \<Rightarrow>
   error + (schemaTypeObj \<times> registry)" where
  "createSchemaType reg name category superTypes declaredFields =
     (let declaredFieldMap = declareFields declaredFields [] in
      case validateType name category declaredFieldMap superTypes of
        Inl e \<Rightarrow> Inl e
      | Inr u \<Rightarrow>
          (let result = SchemaType name category superTypes declaredFieldMap
           in Inr (\<lparr> the_type = result, fields_cache = None \<rparr>, registerSchemaType reg result)))"

text \<open>The getter \<open>fields\<close>: the value read, and the object with its cache filled.\<close>

definition get_fields :: "schemaTypeObj \<Rightarrow> (string \<times> schemaField) list \<times> schemaTypeObj" where
  "get_fields obj =
     (case fields_cache obj of
        Some cached \<Rightarrow> (cached, obj)
      | None \<Rightarrow>
          (let computed = fields_of (the_type obj)
           in (computed, obj\<lparr> fields_cache := Some computed \<rparr>)))"

section \<open>Selection nodes (\<open>runtime/selection.ts\<close>)\<close>

text \<open>
  \<open>FieldOptionsValue\<close>: an optional alias and a table of directives. \<open>DirectiveArgs\<close> is an
  object or \<open>undefined\<close>.
\<close>

record fieldOptionsValue =
  fo_alias :: "string option"
  fo_directives :: "(string \<times> jsobj option) list"

text \<open>\<open>EnumInputMetaType\<close>: \<open>ENUM\<close> or \<open>INPUT\<close>, a name, and for an input type its fields.\<close>

datatype metaKind = ENUM | INPUT

datatype enumInputMetaType =
  EnumInputMetaType (mt_type: metaKind) (mt_name: string)
                    (mt_fields: "(string \<times> enumInputMetaType) list option")

type_synonym enumInputMetadata = "(string \<times> enumInputMetaType) list"

text \<open>
  \<open>SelectionImpl\<close> is an immutable linked-list node: every member the constructor takes
  is \<open>readonly\<close>. \<open>_ctx\<close> is either the previous node or, at the root, the triple of schema
  type, enum/input metadata and union member types. A proxy around a node is identified
  with the node.
\<close>

datatype selection =
  SelectionImpl (s_ctx: selectionCtx) (s_negative: bool) (s_field: string)
                (s_args: "jsobj option") (s_child: "selection option")
                (s_fieldOptionsValue: "fieldOptionsValue option")
                (s_directive: "string option") (s_directiveArgs: "jsobj option")
and selectionCtx =
    Prev selection
  | Root schemaType enumInputMetadata "string list option"

definition lastField :: "selection \<Rightarrow> string" where
  "lastField this = s_field this"

fun schemaType_of :: "selection \<Rightarrow> schemaType"
and schemaType_of_ctx :: "selectionCtx \<Rightarrow> schemaType" where
  "schemaType_of (SelectionImpl c n f a ch fo d da) = schemaType_of_ctx c"
| "schemaType_of_ctx (Prev p) = schemaType_of p"
| "schemaType_of_ctx (Root t m u) = t"

fun enumInputMetadata_of :: "selection \<Rightarrow> enumInputMetadata"
and enumInputMetadata_of_ctx :: "selectionCtx \<Rightarrow> enumInputMetadata" where
  "enumInputMetadata_of (SelectionImpl c n f a ch fo d da) = enumInputMetadata_of_ctx c"
| "enumInputMetadata_of_ctx (Prev p) = enumInputMetadata_of p"
| "enumInputMetadata_of_ctx (Root t m u) = m"

fun unionItemTypes_of :: "selection \<Rightarrow> string list option"
and unionItemTypes_of_ctx :: "selectionCtx \<Rightarrow> string list option" where
  "unionItemTypes_of (SelectionImpl c n f a ch fo d da) = unionItemTypes_of_ctx c"
| "unionItemTypes_of_ctx (Prev p) = unionItemTypes_of p"
| "unionItemTypes_of_ctx (Root t m u) =
     (case u of None \<Rightarrow> None | Some ts \<Rightarrow> if ts = [] then None else Some ts)"

definition prev :: "selection \<Rightarrow> selection option" where
  "prev this = (case s_ctx this of Prev p \<Rightarrow> Some p | Root t m u \<Rightarrow> None)"

subsection \<open>The four builders\<close>

definition addField ::
  "selection \<Rightarrow> string \<Rightarrow> jsobj option \<Rightarrow> selection option \<Rightarrow> fieldOptionsValue option \<Rightarrow>
   selection" where
  "addField this fld args child optionsValue =
     SelectionImpl (Prev this) False fld args child optionsValue None None"

definition removeField :: "selection \<Rightarrow> string \<Rightarrow> error + selection" where
  "removeField this fld =
     (if fld = ''__typename'' then Inl (Error ''__typename cannot be removed'')
      else Inr (SelectionImpl (Prev this) True fld None None None None None))"

definition addEmbeddable :: "selection \<Rightarrow> selection \<Rightarrow> string option \<Rightarrow> error + selection" where
  "addEmbeddable this child fragmentName =
     (case fragmentName of
        Some fname \<Rightarrow>
          if length fname = 0
          then Inl (Error (''fragmentName cannot be '' @ [CHR 0x27, CHR 0x27]))
          else if startsWith fname ''on ''
          then Inl (Error (''fragmentName cannot start with '' @ [CHR 0x27] @ ''on '' @ [CHR 0x27]))
          else Inr (SelectionImpl (Prev this) False (''... '' @ fname) None (Some child) None None None)
      | None \<Rightarrow>
          if st_name (schemaType_of child) = st_name (schemaType_of this)
             \<or> unionItemTypes_of child \<noteq> None
          then Inr (SelectionImpl (Prev this) False ''...'' None (Some child) None None None)
          else Inr (SelectionImpl (Prev this) False
                      (''... on '' @ st_name (schemaType_of child)) None (Some child) None None None))"

definition addDirective :: "selection \<Rightarrow> string \<Rightarrow> jsobj option \<Rightarrow> selection" where
  "addDirective this directive directiveArgs =
     SelectionImpl (Prev this) False [] None None None (Some directive) directiveArgs"

subsection \<open>The derived maps\<close>

record fieldSelection =
  fs_name :: string
  argGraphQLTypes :: "(string \<times> string) list option"
  fs_args :: "jsobj option"
  fs_fieldOptionsValue :: "fieldOptionsValue option"
  plural :: bool
  childSelections :: "selection option list option"

text \<open>
  The first loop of \<open>_buildFieldMap\<close>: the chain from \<open>this\<close> to the root, newest first,
  without the nodes whose field is empty.
\<close>

fun nodes :: "selection \<Rightarrow> selection list"
and nodes_ctx :: "selectionCtx \<Rightarrow> selection list" where
  "nodes (SelectionImpl c n f a ch fo d da) =
     (if f \<noteq> [] then [SelectionImpl c n f a ch fo d da] else []) @ nodes_ctx c"
| "nodes_ctx (Prev p) = nodes p"
| "nodes_ctx (Root t m u) = []"

definition nodeKey :: "selection \<Rightarrow> string" where
  "nodeKey n = (case s_fieldOptionsValue n of
                  None \<Rightarrow> s_field n
                | Some fo \<Rightarrow> (case fo_alias fo of None \<Rightarrow> s_field n | Some a \<Rightarrow> a))"

text \<open>The entry an add writes, and the body of the second loop for one node.\<close>

definition fieldEntry :: "selection \<Rightarrow> fieldSelection" where
  "fieldEntry n =
     \<lparr> fs_name = s_field n,
       argGraphQLTypes = map_option argGraphQLTypeMap (map_get (fields_of (schemaType_of n)) (s_field n)),
       fs_args = s_args n,
       fs_fieldOptionsValue = s_fieldOptionsValue n,
       plural = (case map_get (fields_of (schemaType_of n)) (s_field n) of
                   None \<Rightarrow> False | Some f \<Rightarrow> isPlural f),
       childSelections = (case s_child n of None \<Rightarrow> None | Some c \<Rightarrow> Some [Some c]) \<rparr>"

definition spreadEntry :: "selection \<Rightarrow> fieldSelection" where
  "spreadEntry n =
     \<lparr> fs_name = s_field n, argGraphQLTypes = None, fs_args = None,
       fs_fieldOptionsValue = None, plural = False, childSelections = Some [] \<rparr>"

definition replayNode :: "(string \<times> fieldSelection) list \<Rightarrow> selection \<Rightarrow> (string \<times> fieldSelection) list" where
  "replayNode m n =
     (let key = nodeKey n in
      if startsWith (s_field n) ''...'' then
        (case map_get m key of
           None \<Rightarrow> map_set key ((spreadEntry n)\<lparr> childSelections := Some [s_child n] \<rparr>) m
         | Some e \<Rightarrow>
             (case childSelections e of
                None \<Rightarrow> map_set key ((spreadEntry n)\<lparr> childSelections := Some [s_child n] \<rparr>) m
              | Some children \<Rightarrow>
                  map_set key (e\<lparr> childSelections := Some (children @ [s_child n]) \<rparr>) m))
      else if s_negative n then map_delete key m
      else map_set key (fieldEntry n) m)"

definition replay :: "selection list \<Rightarrow> (string \<times> fieldSelection) list" where
  "replay ns = foldl replayNode [] ns"

definition buildFieldMap :: "selection \<Rightarrow> (string \<times> fieldSelection) list" where
  "buildFieldMap this = replay (rev (nodes this))"

text \<open>\<open>_buildDirectiveMap\<close>: newest first, the first occurrence of a directive name wins.\<close>

fun directiveWalk :: "selection \<Rightarrow> (string \<times> jsobj option) list \<Rightarrow> (string \<times> jsobj option) list"
and directiveWalk_ctx :: "selectionCtx \<Rightarrow> (string \<times> jsobj option) list \<Rightarrow> (string \<times> jsobj option) list" where
  "directiveWalk (SelectionImpl c n f a ch fo d da) m =
     directiveWalk_ctx c
       (case d of
          None \<Rightarrow> m
        | Some dname \<Rightarrow> if \<not> map_has m dname then map_set dname da m else m)"
| "directiveWalk_ctx (Prev p) m = directiveWalk p m"
| "directiveWalk_ctx (Root t m0 u) m = m"

definition buildDirectiveMap :: "selection \<Rightarrow> (string \<times> jsobj option) list" where
  "buildDirectiveMap this = directiveWalk this []"

section \<open>The dynamic field resolver (\<open>runtime/proxy.ts\<close>)\<close>

definition createSelection ::
  "schemaType \<Rightarrow> enumInputMetadata \<Rightarrow> string list option \<Rightarrow> selection" where
  "createSelection schemaType enumInputMetadata unionEntityTypes =
     SelectionImpl (Root schemaType enumInputMetadata unionEntityTypes) False [] None None None None None"

section \<open>Replaying the surviving operations\<close>

text \<open>
  Of a chain of operations, oldest first, the survivors are the adds that no later
  operation on the same key follows: the last add of a key, unless a remove of that key
  comes after it. (A remove carries no options, so its key is its field name.)
\<close>

fun survivors :: "selection list \<Rightarrow> selection list" where
  "survivors [] = []"
| "survivors (n # ns) =
     (if \<not> s_negative n \<and> nodeKey n \<notin> set (map nodeKey ns) then n # survivors ns
      else survivors ns)"

text \<open>The last operation of a chain on a key.\<close>

definition lastOn :: "string \<Rightarrow> selection list \<Rightarrow> selection option" where
  "lastOn k ns = List.find (\<lambda>n. nodeKey n = k) (rev ns)"

section \<open>A small schema used in the examples\<close>

definition ex_Post :: schemaType where
  "ex_Post = SchemaType ''Post'' OBJECT []
     (declareFields
        [DescObject \<lparr> d_name = ''id'', d_category = F_ID, d_undefinable = None,
                      d_argGraphQLTypeMap = None, d_targetTypeName = None,
                      d_connectionTypeName = None, d_edgeTypeName = None \<rparr>,
         DescString ''title'', DescString ''content''] [])"

definition ex_root :: selection where
  "ex_root = createSelection ex_Post [] None"

text \<open>\<open>root.title.content.title\<close>: the field \<open>title\<close> is added, then \<open>content\<close>, then \<open>title\<close> again.\<close>

definition ex_readd :: selection where
  "ex_readd = addField (addField (addField ex_root ''title'' None None None)
                          ''content'' None None None) ''title'' None None None"

section \<open>The declarations a type inherits\<close>

text \<open>
  All field declarations reachable from a type, in depth-first order: the type's own,
  then those of each supertype in turn, each followed by its own supertypes'.
\<close>

fun decls :: "schemaType \<Rightarrow> (string \<times> schemaField) list"
and declsSupers :: "schemaType list \<Rightarrow> (string \<times> schemaField) list" where
  "decls (SchemaType n c supers own) = own @ declsSupers supers"
| "declsSupers [] = []"
| "declsSupers (superType # rest) = decls superType @ declsSupers rest"

definition ex_Node :: schemaType where
  "ex_Node = SchemaType ''Node'' OBJECT [] (declareFields [DescString ''id'', DescString ''title''] [])"

text \<open>A subtype of \<open>Node\<close> that declares \<open>title\<close> again, with an argument.\<close>

definition ex_titleWithArg :: fieldDescriptor where
  "ex_titleWithArg =
     DescObject \<lparr> d_name = ''title'', d_category = F_SCALAR, d_undefinable = None,
                  d_argGraphQLTypeMap = Some [(''upper'', ''Boolean'')], d_targetTypeName = None,
                  d_connectionTypeName = None, d_edgeTypeName = None \<rparr>"

section \<open>The built-in methods and field calls of the resolver\<close>

text \<open>
  What the property handler returns for a member name \<open>p\<close>. The handler's \<open>schemaType\<close> is
  the type of the root the proxy was created with, which is the type of every node of the
  chain.
\<close>

datatype proxyMember =
    SchemaTypeMember schemaType
  | CategoryMember schemaTypeCategory
  | BuiltinMethod string
  | AssociationCall schemaField
  | FieldMethod string
  | NewSelection selection
  | ReflectGet

definition proxy_get :: "selection \<Rightarrow> string \<Rightarrow> proxyMember" where
  "proxy_get target p =
     (let schemaType = schemaType_of target in
      if p = ''schemaType'' then SchemaTypeMember schemaType
      else if p = '' $category'' then CategoryMember (st_category schemaType)
      else if p = ''$omit'' \<or> p = ''$alias'' \<or> p = ''$directive'' \<or> p = ''$include'' \<or> p = ''$skip''
      then BuiltinMethod p
      else if p = ''$on'' then BuiltinMethod p
      else (case map_get (fields_of schemaType) p of
              Some fld \<Rightarrow>
                if isAssociation fld \<or> targetTypeName fld \<noteq> None then AssociationCall fld
                else if isFunction fld then FieldMethod p
                else NewSelection (addField target p None None None)
            | None \<Rightarrow> ReflectGet))"

text \<open>
  The arguments synthesized when a call passes no bundle: one deferred-variable reference
  per argument whose declared type ends in \<open>!\<close>, named after the argument.
\<close>

definition requiredArgNames :: "(string \<times> string) list \<Rightarrow> string list" where
  "requiredArgNames argMap = map fst (filter (\<lambda>(name, type). endsWith type ''!'') argMap)"

definition autoArgs :: "(string \<times> string) list option \<Rightarrow> jsobj option" where
  "autoArgs argMap =
     (case argMap of
        None \<Rightarrow> None
      | Some am \<Rightarrow>
          if am \<noteq> [] then
            (if requiredArgNames am \<noteq> []
             then Some (map (\<lambda>name. (name, ParameterRef_of name)) (requiredArgNames am))
             else None)
          else None)"

text \<open>
  The call of an association field. Each argument is a ready selection, a builder
  callback, or anything else (taken as the argument bundle); of each kind the last one
  counts.
\<close>

datatype assocArg =
    ASelection selection
  | AFunction "selection \<Rightarrow> error + selection option"
  | AOther "jsobj option"

fun scanAssocArgs ::
  "assocArg list \<Rightarrow> jsobj option \<times> (selection \<Rightarrow> error + selection option) option \<times> selection option \<Rightarrow>
   jsobj option \<times> (selection \<Rightarrow> error + selection option) option \<times> selection option" where
  "scanAssocArgs [] acc = acc"
| "scanAssocArgs (ASelection s # rest) (args, factory, sel) = scanAssocArgs rest (args, factory, Some s)"
| "scanAssocArgs (AFunction f # rest) (args, factory, sel) = scanAssocArgs rest (args, Some f, sel)"
| "scanAssocArgs (AOther a # rest) (args, factory, sel) = scanAssocArgs rest (a, factory, sel)"

definition associationCall ::
  "registry \<Rightarrow> selection \<Rightarrow> string \<Rightarrow> schemaField \<Rightarrow> assocArg list \<Rightarrow> error + selection" where
  "associationCall reg target p fld argArray =
     (case (case targetTypeName fld of Some t \<Rightarrow> Some t | None \<Rightarrow> connectionTypeName fld) of
        None \<Rightarrow> Inl (Error (''Field '' @ quoted p @ '' has no target type''))
      | Some tname \<Rightarrow>
          if tname = [] then Inl (Error (''Field '' @ quoted p @ '' has no target type''))
          else
          (case resolveRegisteredSchemaType reg tname of
             None \<Rightarrow> Inl (Error (''Cannot resolve schema type '' @ quoted tname @
                        '' for field '' @ quoted p @ '' on '' @ quoted (st_name (schemaType_of target))))
           | Some targetSchemaType \<Rightarrow>
               (case scanAssocArgs argArray (None, None, None) of
                  (args, childSelectionFactory, childSelection0) \<Rightarrow>
                    (case (case childSelectionFactory of
                             None \<Rightarrow> Inr childSelection0
                           | Some factory \<Rightarrow>
                               factory (createSelection targetSchemaType
                                          (enumInputMetadata_of target) None)) of
                       Inl e \<Rightarrow> Inl e
                     | Inr None \<Rightarrow> Inl (Error (''Field '' @ quoted p @ '' requires a child selection''))
                     | Inr (Some childSelection) \<Rightarrow>
                         Inr (addField target p
                                (case args of
                                   Some a \<Rightarrow> Some a
                                 | None \<Rightarrow> autoArgs (Some (argGraphQLTypeMap fld)))
                                (Some childSelection) None)))))"

text \<open>\<open>$omit(...fieldNames)\<close>: one \<open>removeField\<close> per argument that is a string.\<close>

fun dollar_omit :: "selection \<Rightarrow> jsval list \<Rightarrow> error + selection" where
  "dollar_omit current [] = Inr current"
| "dollar_omit current (JString fieldName # rest) =
     (case removeField current fieldName of
        Inl e \<Rightarrow> Inl e
      | Inr next \<Rightarrow> dollar_omit next rest)"
| "dollar_omit current (other # rest) = dollar_omit current rest"

text \<open>\<open>$alias(alias)\<close>: the last field is removed and added again under the alias.\<close>

definition dollar_alias :: "selection \<Rightarrow> string \<Rightarrow> error + selection" where
  "dollar_alias targetSelection als =
     (let lastFld = lastField targetSelection in
      if lastFld = [] then Inl (Error ''$alias requires a preceding field selection'')
      else
        (let optionsValue = \<lparr> fo_alias = Some als, fo_directives = [] \<rparr> in
         case removeField targetSelection lastFld of
           Inl e \<Rightarrow> Inl e
         | Inr current \<Rightarrow> Inr (addField current lastFld None None (Some optionsValue))))"

text \<open>
  \<open>$directive(name, args?)\<close>: on the last field when there is one, else on the selection.
\<close>

definition dollar_directive :: "selection \<Rightarrow> string \<Rightarrow> jsobj option \<Rightarrow> error + selection" where
  "dollar_directive targetSelection directiveName directiveArgs =
     (let lastFld = lastField targetSelection in
      if lastFld = [] then Inr (addDirective targetSelection directiveName directiveArgs)
      else
        (let optionsValue = \<lparr> fo_alias = None,
                              fo_directives = map_set directiveName directiveArgs [] \<rparr> in
         case removeField targetSelection lastFld of
           Inl e \<Rightarrow> Inl e
         | Inr current \<Rightarrow> Inr (addField current lastFld None None (Some optionsValue))))"

text \<open>\<open>$include(condition)\<close> and \<open>$skip(condition)\<close>, by the member name called.\<close>

definition dollar_include_skip :: "selection \<Rightarrow> string \<Rightarrow> jsval \<Rightarrow> error + selection" where
  "dollar_include_skip targetSelection member condition =
     (let directiveName = (if member = ''$include'' then ''include'' else ''skip'');
          directiveArgs = Some [(''if'', condition)];
          lastFld = lastField targetSelection in
      if lastFld = [] then Inr (addDirective targetSelection directiveName directiveArgs)
      else
        (let optionsValue = \<lparr> fo_alias = None,
                              fo_directives = map_set directiveName directiveArgs [] \<rparr> in
         case removeField targetSelection lastFld of
           Inl e \<Rightarrow> Inl e
         | Inr current \<Rightarrow> Inr (addField current lastFld None None (Some optionsValue))))"

text \<open>
  \<open>$on(child, fragmentName?)\<close>: the child is a selection with an optional name, or a
  \<open>FragmentSpread\<close> that carries both.
\<close>

datatype onArg = OnFragmentSpread string selection | OnSelection selection "string option"

definition dollar_on :: "selection \<Rightarrow> onArg \<Rightarrow> error + selection" where
  "dollar_on targetSelection arg =
     (let childSelection = (case arg of OnFragmentSpread n s \<Rightarrow> s | OnSelection s n \<Rightarrow> s);
          fragmentName = (case arg of OnFragmentSpread n s \<Rightarrow> Some n | OnSelection s n \<Rightarrow> n);
          parent = (if st_name (schemaType_of targetSelection) \<noteq> st_name (schemaType_of childSelection)
                    then addField targetSelection ''__typename'' None None None
                    else targetSelection)
      in addEmbeddable parent childSelection fragmentName)"

text \<open>
  The call of a scalar field that takes arguments. An argument is a selection, an options
  callback (given here by the \<open>FieldOptionsValue\<close> its result holds), or anything else
  (taken as the argument bundle).
\<close>

datatype methodArg =
    MSelection selection
  | MOptions fieldOptionsValue
  | MOther "jsobj option"

fun scanMethodArgs ::
  "methodArg list \<Rightarrow> jsobj option \<times> selection option \<times> fieldOptionsValue option \<Rightarrow>
   jsobj option \<times> selection option \<times> fieldOptionsValue option" where
  "scanMethodArgs [] acc = acc"
| "scanMethodArgs (MSelection s # rest) (args, child, opts) = scanMethodArgs rest (args, Some s, opts)"
| "scanMethodArgs (MOptions v # rest) (args, child, opts) = scanMethodArgs rest (args, child, Some v)"
| "scanMethodArgs (MOther a # rest) (args, child, opts) = scanMethodArgs rest (a, child, opts)"

definition fieldMethodCall :: "selection \<Rightarrow> string \<Rightarrow> methodArg list \<Rightarrow> selection" where
  "fieldMethodCall targetSelection fld argArray =
     (case scanMethodArgs argArray (None, None, None) of
        (args, child, optionsValue) \<Rightarrow>
          addField targetSelection fld
            (case args of
               Some a \<Rightarrow> Some a
             | None \<Rightarrow> autoArgs (map_option argGraphQLTypeMap
                                   (map_get (ownFields (schemaType_of targetSelection)) fld)))
            child optionsValue)"

section \<open>Scoped text emission (\<open>runtime/text-builder.ts\<close>)\<close>

datatype scopeType = Block | Arguments | Array

record scopeOptions =
  so_type :: scopeType
  so_multiLines :: "bool option"
  so_separator :: "string option"
  so_prefix :: "string option"
  so_suffix :: "string option"

record scopeState =
  sc_type :: scopeType
  sc_multiLines :: bool
  sc_separator :: "string option"
  dirty :: bool

text \<open>
  The writer. The stack \<open>scopes\<close> is kept with its top at the head of the list:
  \<open>push\<close> is \<open>#\<close>, \<open>pop\<close> is \<open>tl\<close> and \<open>at(-1)\<close> reads the head.
\<close>

record textBuilder =
  result :: string
  atNewLine :: bool
  scopes :: "scopeState list"
  indent :: string

definition new_TextBuilder :: textBuilder where
  "new_TextBuilder = \<lparr> result = [], atNewLine = False, scopes = [], indent = [CHR 0x09] \<rparr>"

definition SCOPE_BRACKETS :: "scopeType \<Rightarrow> string \<times> string" where
  "SCOPE_BRACKETS t = (case t of Block \<Rightarrow> (''{'', ''}'') | Arguments \<Rightarrow> (''('', '')'') | Array \<Rightarrow> (''['', '']''))"

definition DEFAULT_SEPARATORS :: "scopeType \<Rightarrow> string option" where
  "DEFAULT_SEPARATORS t = (case t of Block \<Rightarrow> None | Arguments \<Rightarrow> Some '', '' | Array \<Rightarrow> Some '', '')"

definition flushIndent :: "textBuilder \<Rightarrow> textBuilder" where
  "flushIndent tb =
     (if atNewLine tb
      then tb\<lparr> result := result tb @ concat (replicate (length (scopes tb)) (indent tb)),
               atNewLine := False \<rparr>
      else tb)"

definition lineBreak :: "textBuilder \<Rightarrow> textBuilder" where
  "lineBreak tb = tb\<lparr> result := result tb @ [CHR 0x0A], atNewLine := True \<rparr>"

text \<open>The loop of \<open>text(value)\<close>: the value is written line by line, each line after its indent.\<close>

function writeRemaining :: "textBuilder \<Rightarrow> string \<Rightarrow> textBuilder" where
  "writeRemaining tb remaining =
     (if remaining = [] then tb
      else
        (let tb1 = flushIndent tb in
         if CHR 0x0A \<in> set remaining then
           writeRemaining
             (lineBreak (tb1\<lparr> result := result tb1 @ takeWhile (\<lambda>c. c \<noteq> CHR 0x0A) remaining \<rparr>))
             (tl (dropWhile (\<lambda>c. c \<noteq> CHR 0x0A) remaining))
         else tb1\<lparr> result := result tb1 @ remaining \<rparr>))"
  by pat_completeness auto
termination
proof (relation "measure (\<lambda>(tb, remaining). length remaining)")
  show "wf (measure (\<lambda>(tb, remaining). length remaining))" by simp
next
  fix tb :: textBuilder and remaining :: string and x
  assume "remaining \<noteq> []" and "CHR 0x0A \<in> set remaining"
  then have "dropWhile (\<lambda>c. c \<noteq> CHR 0x0A) remaining \<noteq> []"
    by (simp add: dropWhile_eq_Nil_conv)
  then have "length (tl (dropWhile (\<lambda>c. c \<noteq> CHR 0x0A) remaining))
             < length (dropWhile (\<lambda>c. c \<noteq> CHR 0x0A) remaining)"
    by (cases "dropWhile (\<lambda>c. c \<noteq> CHR 0x0A) remaining") simp_all
  also have "\<dots> \<le> length remaining" by (rule length_dropWhile_le)
  finally show "((lineBreak (x\<lparr> result := result x @ takeWhile (\<lambda>c. c \<noteq> CHR 0x0A) remaining \<rparr>),
                  tl (dropWhile (\<lambda>c. c \<noteq> CHR 0x0A) remaining)), (tb, remaining))
                \<in> measure (\<lambda>(tb, remaining). length remaining)"
    by simp
qed

declare writeRemaining.simps [simp del]

text \<open>\<open>text(value)\<close>: a first write into a clean scope marks it dirty, after a line break when the scope is multi-line.\<close>

definition writeText :: "string \<Rightarrow> textBuilder \<Rightarrow> textBuilder" where
  "writeText val tb =
     writeRemaining
       (case scopes tb of
          [] \<Rightarrow> tb
        | scope # below \<Rightarrow>
            if val \<noteq> [] \<and> \<not> dirty scope
            then (let tb1 = (if sc_multiLines scope then lineBreak tb else tb)
                  in tb1\<lparr> scopes := scope\<lparr> dirty := True \<rparr> # below \<rparr>)
            else tb)
       val"

text \<open>
  \<open>scope(options, action)\<close> is split at the action: what runs before it, and what runs
  after it when the action returns (when it throws, the text written is dropped with the
  whole serialization).
\<close>

definition scope_enter :: "scopeOptions \<Rightarrow> textBuilder \<Rightarrow> textBuilder" where
  "scope_enter options tb =
     (let tb1 = (case so_prefix options of
                   None \<Rightarrow> tb
                 | Some prefix \<Rightarrow> if prefix \<noteq> [] then writeText prefix tb else tb);
          tb2 = writeText (fst (SCOPE_BRACKETS (so_type options))) tb1
      in tb2\<lparr> scopes :=
                \<lparr> sc_type = so_type options,
                  sc_multiLines = (case so_multiLines options of None \<Rightarrow> False | Some b \<Rightarrow> b),
                  sc_separator = (case so_separator options of
                                    None \<Rightarrow> DEFAULT_SEPARATORS (so_type options)
                                  | Some s \<Rightarrow> Some s),
                  dirty = False \<rparr> # scopes tb2 \<rparr>)"

definition scope_leave :: "scopeOptions \<Rightarrow> textBuilder \<Rightarrow> textBuilder" where
  "scope_leave options tb =
     (let tb1 = tb\<lparr> scopes := tl (scopes tb) \<rparr>;
          tb2 = (if (case so_multiLines options of None \<Rightarrow> False | Some b \<Rightarrow> b) \<and> \<not> atNewLine tb1
                 then lineBreak tb1 else tb1);
          tb3 = writeText (snd (SCOPE_BRACKETS (so_type options))) tb2
      in case so_suffix options of
           None \<Rightarrow> tb3
         | Some suffix \<Rightarrow> if suffix \<noteq> [] then writeText suffix tb3 else tb3)"

definition separator :: "string option \<Rightarrow> textBuilder \<Rightarrow> error + textBuilder" where
  "separator val tb =
     (case scopes tb of
        [] \<Rightarrow> Inl (Error ''No existing scope'')
      | scope # below \<Rightarrow>
          if dirty scope then
            (let sep = (case val of
                          None \<Rightarrow> sc_separator scope
                        | Some v \<Rightarrow> if v \<noteq> [] then Some v else sc_separator scope);
                 tb1 = (case sep of
                          None \<Rightarrow> tb
                        | Some s \<Rightarrow> if s \<noteq> [] then writeText s tb else tb)
             in Inr (if sc_multiLines scope then lineBreak tb1 else tb1))
          else Inr tb)"

definition blockScope :: "bool \<Rightarrow> string option \<Rightarrow> scopeOptions" where
  "blockScope multi suffix =
     \<lparr> so_type = Block, so_multiLines = Some multi, so_separator = None, so_prefix = None,
       so_suffix = suffix \<rparr>"

section \<open>The serializer (\<open>runtime/selection.ts\<close>)\<close>

subsection \<open>Helpers of the language\<close>

text \<open>A loop whose body can throw: it stops at the first error.\<close>

fun foldE :: "('a \<Rightarrow> 's \<Rightarrow> 'e + 's) \<Rightarrow> 'a list \<Rightarrow> 's \<Rightarrow> 'e + 's" where
  "foldE f [] s = Inr s"
| "foldE f (x # xs) s = (case f x s of Inl e \<Rightarrow> Inl e | Inr s' \<Rightarrow> foldE f xs s')"

lemma foldE_cong [fundef_cong]:
  "xs = ys \<Longrightarrow> s = t \<Longrightarrow> (\<And>x u. x \<in> set ys \<Longrightarrow> f x u = g x u) \<Longrightarrow> foldE f xs s = foldE g ys t"
proof (induction ys arbitrary: xs s t)
  case Nil
  then show ?case by simp
next
  case (Cons y ys)
  then show ?case by (auto split: sum.splits)
qed

definition squoted :: "string \<Rightarrow> string" where
  "squoted s = [CHR 0x27] @ s @ [CHR 0x27]"

text \<open>
  \<open>JSON.stringify\<close> on a string: the text between double quotes, with the quote, the
  backslash and the control characters escaped.
\<close>

definition hex_char :: "nat \<Rightarrow> char" where
  "hex_char d = (if d < 10 then char_of (48 + d) else char_of (87 + d))"

definition json_escape :: "char \<Rightarrow> string" where
  "json_escape c =
     (if c = CHR 0x22 then [CHR 0x5C, CHR 0x22]
      else if c = CHR 0x5C then [CHR 0x5C, CHR 0x5C]
      else if c = CHR 0x08 then [CHR 0x5C, CHR ''b'']
      else if c = CHR 0x0C then [CHR 0x5C, CHR ''f'']
      else if c = CHR 0x0A then [CHR 0x5C, CHR ''n'']
      else if c = CHR 0x0D then [CHR 0x5C, CHR ''r'']
      else if c = CHR 0x09 then [CHR 0x5C, CHR ''t'']
      else if of_char c < (32::nat)
      then [CHR 0x5C, CHR ''u'', CHR ''0'', CHR ''0'',
            hex_char (of_char c div 16), hex_char (of_char c mod 16)]
      else [c])"

definition JSON_stringify :: "string \<Rightarrow> string" where
  "JSON_stringify s = [CHR 0x22] @ concat (map json_escape s) @ [CHR 0x22]"

text \<open>\<open>String.prototype.trim\<close>, on the white space of ASCII.\<close>

definition isSpace :: "char \<Rightarrow> bool" where
  "isSpace c = (c = CHR 0x20 \<or> c = CHR 0x09 \<or> c = CHR 0x0A \<or> c = CHR 0x0B \<or> c = CHR 0x0C \<or> c = CHR 0x0D)"

definition trim :: "string \<Rightarrow> string" where
  "trim s = rev (dropWhile isSpace (rev (dropWhile isSpace s)))"

text \<open>\<open>typeof v === "object"\<close>.\<close>

fun typeof_object :: "jsval \<Rightarrow> bool" where
  "typeof_object JUndefined = False"
| "typeof_object (JNumber n) = False"
| "typeof_object (JString s) = False"
| "typeof_object (JBoolean b) = False"
| "typeof_object v = True"

text \<open>
  The read \<open>v[" $__instanceOfParameterRef"]\<close> and the cast that follows it: reading a
  property off \<open>null\<close> or \<open>undefined\<close> throws a \<open>TypeError\<close>; an instance of \<open>ParameterRef\<close>
  carries the marker; every other value is taken not to.
\<close>

fun asParameterRef :: "jsval \<Rightarrow> error + (string \<times> string option) option" where
  "asParameterRef JUndefined = Inl TypeError"
| "asParameterRef JNull = Inl TypeError"
| "asParameterRef (JParameterRef name graphqlTypeName) = Inr (Some (name, graphqlTypeName))"
| "asParameterRef v = Inr None"

text \<open>The own enumerable properties that \<open>for ... in\<close> visits, for the objects that are not arrays.\<close>

fun enumerableProps :: "jsval \<Rightarrow> (string \<times> jsval) list" where
  "enumerableProps (JObject kvs) = kvs"
| "enumerableProps (JParameterRef name graphqlTypeName) =
     [(''name'', JString name),
      (''graphqlTypeName'', case graphqlTypeName of None \<Rightarrow> JUndefined | Some t \<Rightarrow> JString t)]"
| "enumerableProps (JStringValue v q) = [(''value'', JString v), (''quotationMarks'', JBoolean q)]"
| "enumerableProps v = []"

subsection \<open>The pretty-printing heuristic\<close>

fun multiLineScan :: "jsval list \<Rightarrow> nat \<Rightarrow> error + bool" where
  "multiLineScan [] sz = Inr False"
| "multiLineScan (v # vs) sz =
     (case (if typeof_object v
            then (case asParameterRef v of
                    Inl e \<Rightarrow> Inl e
                  | Inr r \<Rightarrow> Inr (r = None))
            else Inr False) of
        Inl e \<Rightarrow> Inl e
      | Inr True \<Rightarrow> Inr True
      | Inr False \<Rightarrow> if sz + 1 > 2 then Inr True else multiLineScan vs (sz + 1))"

definition isMultiLineJSON :: "jsval \<Rightarrow> error + bool" where
  "isMultiLineJSON obj =
     (case obj of
        JArray vs \<Rightarrow> multiLineScan vs 0
      | _ \<Rightarrow> if typeof_object obj then multiLineScan (map snd (enumerableProps obj)) 0
             else Inr False)"

subsection \<open>Literals\<close>

definition enumMetaType :: "enumInputMetadata option \<Rightarrow> string option \<Rightarrow> enumInputMetaType option" where
  "enumMetaType meta typeName =
     (case meta of
        None \<Rightarrow> None
      | Some m \<Rightarrow>
          (case typeName of
             None \<Rightarrow> None
           | Some tn \<Rightarrow>
               if tn = [] then None
               else map_get m (filter (\<lambda>c. c \<noteq> CHR ''['' \<and> c \<noteq> CHR '']'' \<and> c \<noteq> CHR ''!'') tn)))"

definition metaField :: "enumInputMetaType option \<Rightarrow> string \<Rightarrow> enumInputMetaType option" where
  "metaField metaType k =
     (case metaType of
        None \<Rightarrow> None
      | Some mt \<Rightarrow> (case mt_fields mt of None \<Rightarrow> None | Some fs \<Rightarrow> map_get fs k))"

definition arrayScope :: scopeOptions where
  "arrayScope = \<lparr> so_type = Array, so_multiLines = None, so_separator = None, so_prefix = None,
                  so_suffix = None \<rparr>"

definition plainBlockScope :: scopeOptions where
  "plainBlockScope = \<lparr> so_type = Block, so_multiLines = None, so_separator = None, so_prefix = None,
                       so_suffix = None \<rparr>"

text \<open>
  A \<open>ParameterRef\<close> reached inside a literal falls into the last branch of
  \<open>acceptLiteral\<close> and is written member by member; its members are scalars.
\<close>

definition scalarLiteral :: "jsval \<Rightarrow> string" where
  "scalarLiteral v =
     (case v of
        JString s \<Rightarrow> JSON_stringify s
      | JBoolean b \<Rightarrow> (if b then ''true'' else ''false'')
      | JNumber n \<Rightarrow> n
      | _ \<Rightarrow> ''null'')"

fun acceptLiteral :: "jsval \<Rightarrow> enumInputMetaType option \<Rightarrow> textBuilder \<Rightarrow> error + textBuilder" where
  "acceptLiteral JUndefined metaType w = Inr (writeText ''null'' w)"
| "acceptLiteral JNull metaType w = Inr (writeText ''null'' w)"
| "acceptLiteral (JNumber n) metaType w = Inr (writeText n w)"
| "acceptLiteral (JString s) metaType w =
     Inr (writeText (if metaType \<noteq> None then s else JSON_stringify s) w)"
| "acceptLiteral (JBoolean b) metaType w = Inr (writeText (if b then ''true'' else ''false'') w)"
| "acceptLiteral (JStringValue v quotationMarks) metaType w =
     Inr (writeText (if quotationMarks then JSON_stringify v else v) w)"
| "acceptLiteral (JArray es) metaType w =
     (case foldE (\<lambda>e w1. case separator (Some '', '') w1 of
                            Inl err \<Rightarrow> Inl err
                          | Inr w2 \<Rightarrow> acceptLiteral e metaType w2)
             es (scope_enter arrayScope w) of
        Inl err \<Rightarrow> Inl err
      | Inr w3 \<Rightarrow> Inr (scope_leave arrayScope w3))"
| "acceptLiteral (JSet es) metaType w =
     (case foldE (\<lambda>e w1. case separator (Some '', '') w1 of
                            Inl err \<Rightarrow> Inl err
                          | Inr w2 \<Rightarrow> acceptLiteral e metaType w2)
             es (scope_enter arrayScope w) of
        Inl err \<Rightarrow> Inl err
      | Inr w3 \<Rightarrow> Inr (scope_leave arrayScope w3))"
| "acceptLiteral (JMap kvs) metaType w =
     (case foldE (\<lambda>kv w1. case separator (Some '', '') w1 of
                             Inl err \<Rightarrow> Inl err
                           | Inr w2 \<Rightarrow>
                               acceptLiteral (snd kv) (metaField metaType (fst kv))
                                 (writeText '': '' (writeText (fst kv) w2)))
             kvs (scope_enter plainBlockScope w) of
        Inl err \<Rightarrow> Inl err
      | Inr w3 \<Rightarrow> Inr (scope_leave plainBlockScope w3))"
| "acceptLiteral (JObject kvs) metaType w =
     (case foldE (\<lambda>kv w1. case separator (Some '', '') w1 of
                             Inl err \<Rightarrow> Inl err
                           | Inr w2 \<Rightarrow>
                               acceptLiteral (snd kv) (metaField metaType (fst kv))
                                 (writeText '': '' (writeText (fst kv) w2)))
             kvs (scope_enter plainBlockScope w) of
        Inl err \<Rightarrow> Inl err
      | Inr w3 \<Rightarrow> Inr (scope_leave plainBlockScope w3))"
| "acceptLiteral (JParameterRef name graphqlTypeName) metaType w =
     (case foldE (\<lambda>kv w1. case separator (Some '', '') w1 of
                             Inl err \<Rightarrow> Inl err
                           | Inr w2 \<Rightarrow>
                               Inr (writeText (scalarLiteral (snd kv))
                                      (writeText '': '' (writeText (fst kv) w2))))
             (enumerableProps (JParameterRef name graphqlTypeName)) (scope_enter plainBlockScope w) of
        Inl err \<Rightarrow> Inl err
      | Inr w3 \<Rightarrow> Inr (scope_leave plainBlockScope w3))"

subsection \<open>The serialization context\<close>

text \<open>
  \<open>SerializeContext\<close>: the writer, the pending named fragments, and the table of variable
  types, which a context shares with the one before it. \<open>console\<close> collects the lines of
  \<open>console.warn\<close>.
\<close>

record serializeContext =
  writer :: textBuilder
  namedFragmentMap :: "(string \<times> selection option) list"
  variableTypeMap :: "(string \<times> string) list"
  console :: "string list"

text \<open>The shorthand \<open>t\<close> of the source, \<open>this.writer.text\<close>.\<close>

definition emit :: "string \<Rightarrow> serializeContext \<Rightarrow> serializeContext" where
  "emit val ctx = ctx\<lparr> writer := writeText val (writer ctx) \<rparr>"

text \<open>The first loop of \<open>acceptArgs\<close>: it stops at the first declared key and warns before it.\<close>

fun scanDeclared :: "string list \<Rightarrow> (string \<times> string) list \<Rightarrow> string list \<Rightarrow> bool \<times> string list" where
  "scanDeclared [] argTypeMap log = (False, log)"
| "scanDeclared (argName # rest) argTypeMap log =
     (if map_get argTypeMap argName \<noteq> None then (True, log)
      else scanDeclared rest argTypeMap (log @ [''Unexpected argument: '' @ argName]))"

text \<open>The body of the second loop of \<open>acceptArgs\<close>, for one key of the bundle.\<close>

definition acceptArg ::
  "(string \<times> string) list option \<Rightarrow> enumInputMetadata option \<Rightarrow> string \<times> jsval \<Rightarrow>
   serializeContext \<Rightarrow> error + serializeContext" where
  "acceptArg argTypeMap enumInputMetadata kv ctx =
     (let argName = fst kv; arg = snd kv in
      case separator None (writer ctx) of
        Inl e \<Rightarrow> Inl e
      | Inr w \<Rightarrow>
          (let ctx1 = ctx\<lparr> writer := w \<rparr> in
           case argTypeMap of
             Some typeMap \<Rightarrow>
               (case map_get typeMap argName of
                  Some typeName \<Rightarrow>
                    (case asParameterRef arg of
                       Inl e \<Rightarrow> Inl e
                     | Inr (Some (refName, refType)) \<Rightarrow>
                         if (case refType of None \<Rightarrow> False | Some g \<Rightarrow> g \<noteq> [] \<and> g \<noteq> typeName)
                         then Inl (Error (''Argument '' @ squoted refName @ '' type conflict: '' @
                                    squoted typeName @ '' vs ParameterRef '' @ squoted (the refType)))
                         else if (case map_get (variableTypeMap ctx1) refName of
                                    None \<Rightarrow> False
                                  | Some existing \<Rightarrow> existing \<noteq> [] \<and> existing \<noteq> typeName)
                         then Inl (Error (''Argument '' @ squoted refName @ '' type conflict: '' @
                                    squoted (the (map_get (variableTypeMap ctx1) refName)) @
                                    '' vs '' @ squoted typeName))
                         else Inr (emit (argName @ '': $'' @ refName)
                                     (ctx1\<lparr> variableTypeMap :=
                                              map_set refName typeName (variableTypeMap ctx1) \<rparr>))
                     | Inr None \<Rightarrow>
                         (case acceptLiteral arg (enumMetaType enumInputMetadata (Some typeName))
                                 (writer (emit (argName @ '': '') ctx1)) of
                            Inl e \<Rightarrow> Inl e
                          | Inr w2 \<Rightarrow> Inr (ctx1\<lparr> writer := w2 \<rparr>)))
                | None \<Rightarrow> Inl (Error (''Unknown argument '' @ squoted argName)))
           | None \<Rightarrow>
               (case asParameterRef arg of
                  Inl e \<Rightarrow> Inl e
                | Inr (Some (refName, refType)) \<Rightarrow>
                    (case refType of
                       None \<Rightarrow> Inl (Error (''Directive argument '' @ squoted refName @
                                   '' requires graphqlTypeName''))
                     | Some g \<Rightarrow>
                         if g = [] then Inl (Error (''Directive argument '' @ squoted refName @
                                   '' requires graphqlTypeName''))
                         else Inr (emit (argName @ '': $'' @ refName)
                                     (ctx1\<lparr> variableTypeMap :=
                                              map_set refName g (variableTypeMap ctx1) \<rparr>)))
                | Inr None \<Rightarrow>
                    (case acceptLiteral arg None (writer (emit (argName @ '': '') ctx1)) of
                       Inl e \<Rightarrow> Inl e
                     | Inr w2 \<Rightarrow> Inr (ctx1\<lparr> writer := w2 \<rparr>)))))"

definition argumentsScope :: "bool \<Rightarrow> scopeOptions" where
  "argumentsScope multi =
     \<lparr> so_type = Arguments, so_multiLines = Some multi, so_separator = None, so_prefix = None,
       so_suffix = None \<rparr>"

definition acceptArgs ::
  "jsobj option \<Rightarrow> (string \<times> string) list option \<Rightarrow> enumInputMetadata option \<Rightarrow>
   serializeContext \<Rightarrow> error + serializeContext" where
  "acceptArgs args argTypeMap enumInputMetadata ctx =
     (case args of
        None \<Rightarrow> Inr ctx
      | Some bundle \<Rightarrow>
          (let (hasField, log) =
                 (case argTypeMap of
                    Some typeMap \<Rightarrow> scanDeclared (map fst bundle) typeMap (console ctx)
                  | None \<Rightarrow> (bundle \<noteq> [], console ctx));
               ctx1 = ctx\<lparr> console := log \<rparr>
           in if hasField then
                (case isMultiLineJSON (JObject bundle) of
                   Inl e \<Rightarrow> Inl e
                 | Inr multi \<Rightarrow>
                     (case foldE (acceptArg argTypeMap enumInputMetadata) bundle
                             (ctx1\<lparr> writer := scope_enter (argumentsScope multi) (writer ctx1) \<rparr>) of
                        Inl e \<Rightarrow> Inl e
                      | Inr ctx2 \<Rightarrow>
                          Inr (ctx2\<lparr> writer := scope_leave (argumentsScope multi) (writer ctx2) \<rparr>)))
              else Inr ctx1))"

definition acceptDirectives ::
  "(string \<times> jsobj option) list option \<Rightarrow> serializeContext \<Rightarrow> error + serializeContext" where
  "acceptDirectives directives ctx =
     (case directives of
        None \<Rightarrow> Inr ctx
      | Some ds \<Rightarrow>
          foldE (\<lambda>(directive, args) c. acceptArgs args None None (emit ([CHR 0x0A] @ ''@'' @ directive) c))
            ds ctx)"

subsection \<open>Walking a selection\<close>

text \<open>Every child selection a field map holds is the child of a node of the chain, so it is smaller.\<close>

lemma size_nodes: "n \<in> set (nodes s) \<Longrightarrow> size n \<le> size s"
  and size_nodes_ctx: "n \<in> set (nodes_ctx c) \<Longrightarrow> size n < size c"
  by (induction s and c rule: nodes_nodes_ctx.induct) (auto split: if_splits)

lemma size_child: "s_child n = Some c \<Longrightarrow> size c < size n"
  by (cases n) auto

definition mapChildren :: "(string \<times> fieldSelection) list \<Rightarrow> selection set" where
  "mapChildren m = {c. \<exists>k e cs. (k, e) \<in> set m \<and> childSelections e = Some cs \<and> Some c \<in> set cs}"

lemma set_update_subset: "set (AList.update k v m) \<subseteq> insert (k, v) (set m)"
  by (induction m) auto

lemma set_delete_subset: "set (AList.delete k m) \<subseteq> set m"
  by (induction m) auto

lemma mapChildren_update:
  "mapChildren (AList.update k e m)
   \<subseteq> mapChildren m \<union> {c. \<exists>cs. childSelections e = Some cs \<and> Some c \<in> set cs}"
  using set_update_subset[of k e m] by (fastforce simp: mapChildren_def)

lemma mapChildren_delete: "mapChildren (AList.delete k m) \<subseteq> mapChildren m"
  using set_delete_subset[of k m] by (fastforce simp: mapChildren_def)

lemma mapChildren_lookup:
  "map_of m k = Some e \<Longrightarrow> childSelections e = Some cs \<Longrightarrow> Some c \<in> set cs \<Longrightarrow> c \<in> mapChildren m"
  by (auto simp: mapChildren_def dest: map_of_SomeD)

lemma mapChildren_replayNode:
  "mapChildren (replayNode m n) \<subseteq> mapChildren m \<union> {c. s_child n = Some c}"
proof (cases "startsWith (s_field n) ''...''")
  case True
  show ?thesis
  proof (cases "map_of m (nodeKey n)")
    case None
    with True show ?thesis
      using mapChildren_update[of "nodeKey n" "(spreadEntry n)\<lparr>childSelections := Some [s_child n]\<rparr>" m]
      by (auto simp: replayNode_def Let_def map_get_def map_set_def)
  next
    case (Some e)
    show ?thesis
    proof (cases "childSelections e")
      case None
      with True Some show ?thesis
        using mapChildren_update[of "nodeKey n" "(spreadEntry n)\<lparr>childSelections := Some [s_child n]\<rparr>" m]
        by (auto simp: replayNode_def Let_def map_get_def map_set_def)
    next
      case (Some cs)
      with True \<open>map_of m (nodeKey n) = Some e\<close> show ?thesis
        using mapChildren_update[of "nodeKey n" "e\<lparr>childSelections := Some (cs @ [s_child n])\<rparr>" m]
          mapChildren_lookup[of m "nodeKey n" e cs]
        by (auto simp: replayNode_def Let_def map_get_def map_set_def)
    qed
  qed
next
  case False
  then show ?thesis
    using mapChildren_update[of "nodeKey n" "fieldEntry n" m] mapChildren_delete[of "nodeKey n" m]
    by (auto simp: replayNode_def Let_def map_set_def map_delete_def fieldEntry_def split: option.splits)
qed

lemma mapChildren_foldl:
  "mapChildren (foldl replayNode m ns) \<subseteq> mapChildren m \<union> {c. \<exists>n\<in>set ns. s_child n = Some c}"
proof (induction ns arbitrary: m)
  case Nil
  then show ?case by simp
next
  case (Cons n ns)
  from Cons[of "replayNode m n"] mapChildren_replayNode[of m n] show ?case by auto
qed

lemma children_smaller:
  assumes "(k, e) \<in> set (buildFieldMap s)" "childSelections e = Some cs" "Some c \<in> set cs"
  shows "size c < size s"
proof -
  from assms have "c \<in> mapChildren (foldl replayNode [] (rev (nodes s)))"
    unfolding mapChildren_def buildFieldMap_def replay_def by blast
  moreover have "mapChildren [] = {}" by (simp add: mapChildren_def)
  ultimately have "c \<in> {c. \<exists>n\<in>set (rev (nodes s)). s_child n = Some c}"
    using mapChildren_foldl[of "[]" "rev (nodes s)"] by blast
  then obtain n where n: "n \<in> set (nodes s)" "s_child n = Some c"
    by auto
  from size_child[OF n(2)] size_nodes[OF n(1)] show ?thesis by simp
qed

text \<open>
  The part of the loop body of \<open>acceptSelection\<close> that writes a field itself: the alias
  prefix when it differs from the name, the name, the arguments and the directives.
\<close>

definition acceptFieldHead ::
  "selection \<Rightarrow> fieldSelection \<Rightarrow> serializeContext \<Rightarrow> error + serializeContext" where
  "acceptFieldHead sel fld ctx =
     (let name = fs_name fld;
          als = (case fs_fieldOptionsValue fld of None \<Rightarrow> None | Some fo \<Rightarrow> fo_alias fo);
          ctx1 = (case als of
                    None \<Rightarrow> ctx
                  | Some a \<Rightarrow> if a \<noteq> [] \<and> a \<noteq> name then emit (a @ '': '') ctx else ctx);
          ctx2 = emit name ctx1
      in case (case argGraphQLTypes fld of
                 None \<Rightarrow> Inr ctx2
               | Some types \<Rightarrow>
                   acceptArgs (fs_args fld) (Some types) (Some (enumInputMetadata_of sel)) ctx2) of
           Inl e \<Rightarrow> Inl e
         | Inr ctx3 \<Rightarrow>
             acceptDirectives
               (case fs_fieldOptionsValue fld of None \<Rightarrow> None | Some fo \<Rightarrow> Some (fo_directives fo))
               ctx3)"

text \<open>
  The loop over the children of a named spread. \<open>old\<close> is read once, before the loop.
  The test \<open>old !== c\<close> compares references; a selection value stands for the one object
  built with that content, so the test is written as inequality of values.
\<close>

definition registerFragments ::
  "string \<Rightarrow> selection option list \<Rightarrow> serializeContext \<Rightarrow> error + serializeContext" where
  "registerFragments fragName children ctx =
     (let old = (case map_get (namedFragmentMap ctx) fragName of None \<Rightarrow> None | Some v \<Rightarrow> v)
      in foldE (\<lambda>c cx. if old \<noteq> None \<and> old \<noteq> c
                        then Inl (Error (''Conflict fragment name '' @ fragName))
                        else Inr (cx\<lparr> namedFragmentMap := map_set fragName c (namedFragmentMap cx) \<rparr>))
           children ctx)"

text \<open>
  \<open>acceptSelection\<close>. The argument may be \<open>undefined\<close> (a spread node without a child
  pushes \<open>undefined\<close> into the child list); \<open>runtimeOf\<close> then reads a member off it.
\<close>

function acceptSelection :: "selection option \<Rightarrow> serializeContext \<Rightarrow> error + serializeContext" where
  "acceptSelection sel ctx =
     (case sel of
        None \<Rightarrow> Inl TypeError
      | Some s \<Rightarrow>
          foldE
            (\<lambda>fld ctx0.
               case (if fs_name fld \<noteq> ''...'' then acceptFieldHead s fld ctx0 else Inr ctx0) of
                 Inl e \<Rightarrow> Inl e
               | Inr ctx1 \<Rightarrow>
                   (case (case childSelections fld of
                            None \<Rightarrow> Inr ctx1
                          | Some children \<Rightarrow>
                              if children = [] then Inr ctx1
                              else if fs_name fld = ''...''
                              then foldE (\<lambda>c cx. acceptSelection c cx) children ctx1
                              else if startsWith (fs_name fld) ''...''
                                      \<and> \<not> startsWith (fs_name fld) ''... on ''
                              then registerFragments (trim (drop 3 (fs_name fld))) children ctx1
                              else
                                (case foldE (\<lambda>c cx. acceptSelection c cx) children
                                        ((emit '' '' ctx1)\<lparr> writer :=
                                            scope_enter (blockScope True None) (writer (emit '' '' ctx1)) \<rparr>) of
                                   Inl e \<Rightarrow> Inl e
                                 | Inr ctx2 \<Rightarrow>
                                     Inr (ctx2\<lparr> writer :=
                                            scope_leave (blockScope True None) (writer ctx2) \<rparr>))) of
                      Inl e \<Rightarrow> Inl e
                    | Inr ctx3 \<Rightarrow> Inr (emit [CHR 0x0A] ctx3)))
            (map snd (buildFieldMap s)) ctx)"
  by pat_completeness auto
termination
proof (relation "measure (\<lambda>(sel, ctx). case sel of None \<Rightarrow> 0 | Some s \<Rightarrow> size s)")
  show "wf (measure (\<lambda>(sel, ctx). case sel of None \<Rightarrow> 0 | Some s \<Rightarrow> size s))" by simp
next
  fix sel :: "selection option" and ctx :: serializeContext and s fld ctx0 cs c cx
  assume s: "sel = Some s" and f: "fld \<in> set (map snd (buildFieldMap s))"
    and cs: "childSelections fld = Some cs" and c: "c \<in> set cs"
  have pos: "0 < size s" by (cases s) simp
  have "(case c of None \<Rightarrow> 0 | Some s' \<Rightarrow> size s') < size s"
  proof (cases c)
    case None
    then show ?thesis using pos by simp
  next
    case (Some c')
    from f obtain k where "(k, fld) \<in> set (buildFieldMap s)" by auto
    from children_smaller[OF this cs] c Some show ?thesis by simp
  qed
  then show "((c, cx), (sel, ctx)) \<in> measure (\<lambda>(sel, ctx). case sel of None \<Rightarrow> 0 | Some s \<Rightarrow> size s)"
    using s by simp
next
  fix sel :: "selection option" and ctx :: serializeContext and s fld ctx0 cs c cx
  assume s: "sel = Some s" and f: "fld \<in> set (map snd (buildFieldMap s))"
    and cs: "childSelections fld = Some cs" and c: "c \<in> set cs"
  have pos: "0 < size s" by (cases s) simp
  have "(case c of None \<Rightarrow> 0 | Some s' \<Rightarrow> size s') < size s"
  proof (cases c)
    case None
    then show ?thesis using pos by simp
  next
    case (Some c')
    from f obtain k where "(k, fld) \<in> set (buildFieldMap s)" by auto
    from children_smaller[OF this cs] c Some show ?thesis by simp
  qed
  then show "((c, cx), (sel, ctx)) \<in> measure (\<lambda>(sel, ctx). case sel of None \<Rightarrow> 0 | Some s \<Rightarrow> size s)"
    using s by simp
qed

declare acceptSelection.simps [simp del]

subsection \<open>Pending fragments and the result\<close>

text \<open>
  The size of a pending fragment, and the measure by which the rounds of the loop of
  \<open>serialize\<close> end: a round only registers fragments found inside those it renders.
\<close>

definition fragSize :: "selection option \<Rightarrow> nat" where
  "fragSize c = (case c of None \<Rightarrow> 0 | Some s \<Rightarrow> size s)"

definition pendingMeasure :: "(string \<times> selection option) list \<Rightarrow> nat" where
  "pendingMeasure fm = Max (insert 0 ((\<lambda>nc. Suc (fragSize (snd nc))) ` set fm))"

lemma foldE_invariant:
  assumes "foldE f xs s = Inr s'" "P s"
    and "\<And>x u u'. x \<in> set xs \<Longrightarrow> P u \<Longrightarrow> f x u = Inr u' \<Longrightarrow> P u'"
  shows "P s'"
  using assms
proof (induction xs arbitrary: s)
  case Nil
  then show ?case by simp
next
  case (Cons x xs)
  from Cons.prems(1) obtain u where u: "f x s = Inr u" "foldE f xs u = Inr s'"
    by (auto split: sum.splits)
  have "P u" using Cons.prems(3)[of x s u] Cons.prems(2) u(1) by simp
  show ?case
  proof (rule Cons.IH[OF u(2) \<open>P u\<close>])
    fix y v v'
    assume "y \<in> set xs" "P v" "f y v = Inr v'"
    then show "P v'" using Cons.prems(3)[of y v v'] by simp
  qed
qed

lemma nfm_emit [simp]: "namedFragmentMap (emit v ctx) = namedFragmentMap ctx"
  by (simp add: emit_def)

lemma nfm_acceptArg:
  "acceptArg tm meta kv ctx = Inr ctx' \<Longrightarrow> namedFragmentMap ctx' = namedFragmentMap ctx"
  by (auto simp: acceptArg_def Let_def split: sum.splits option.splits if_splits prod.splits)

lemma nfm_acceptArgs:
  assumes "acceptArgs args tm meta ctx = Inr ctx'"
  shows "namedFragmentMap ctx' = namedFragmentMap ctx"
proof (cases args)
  case None
  with assms show ?thesis by (simp add: acceptArgs_def)
next
  case (Some bdl)
  obtain hasField log where hl:
    "(case tm of Some typeMap \<Rightarrow> scanDeclared (map fst bdl) typeMap (console ctx)
      | None \<Rightarrow> (bdl \<noteq> [], console ctx)) = (hasField, log)"
    by (cases "(case tm of Some typeMap \<Rightarrow> scanDeclared (map fst bdl) typeMap (console ctx)
      | None \<Rightarrow> (bdl \<noteq> [], console ctx))") auto
  show ?thesis
  proof (cases hasField)
    case False
    with assms Some hl show ?thesis by (auto simp: acceptArgs_def Let_def)
  next
    case True
    with assms Some hl obtain multi ctx2 where
      f: "foldE (acceptArg tm meta) bdl
            (ctx\<lparr> console := log, writer := scope_enter (argumentsScope multi) (writer ctx) \<rparr>) = Inr ctx2"
      and r: "ctx' = ctx2\<lparr> writer := scope_leave (argumentsScope multi) (writer ctx2) \<rparr>"
      by (auto simp: acceptArgs_def Let_def split: sum.splits)
    have "namedFragmentMap ctx2 = namedFragmentMap ctx"
      by (rule foldE_invariant[OF f, where P = "\<lambda>c. namedFragmentMap c = namedFragmentMap ctx"])
         (auto dest: nfm_acceptArg)
    with r show ?thesis by simp
  qed
qed

lemma nfm_acceptDirectives:
  assumes "acceptDirectives ds ctx = Inr ctx'"
  shows "namedFragmentMap ctx' = namedFragmentMap ctx"
proof (cases ds)
  case None
  with assms show ?thesis by (simp add: acceptDirectives_def)
next
  case (Some dl)
  with assms have f: "foldE (\<lambda>(directive, args) c. acceptArgs args None None (emit ([CHR 0x0A] @ ''@'' @ directive) c)) dl ctx = Inr ctx'"
    by (simp add: acceptDirectives_def)
  show ?thesis
    by (rule foldE_invariant[OF f, where P = "\<lambda>c. namedFragmentMap c = namedFragmentMap ctx"])
       (auto dest: nfm_acceptArgs)
qed

lemma nfm_acceptFieldHead:
  "acceptFieldHead s fld ctx = Inr ctx' \<Longrightarrow> namedFragmentMap ctx' = namedFragmentMap ctx"
  by (auto simp: acceptFieldHead_def Let_def split: sum.splits option.splits if_splits
      dest!: nfm_acceptArgs nfm_acceptDirectives)


definition newBelow :: "nat \<Rightarrow> serializeContext \<Rightarrow> serializeContext \<Rightarrow> bool" where
  "newBelow k ctx ctx' \<longleftrightarrow>
     (\<forall>nc\<in>set (namedFragmentMap ctx'). nc \<in> set (namedFragmentMap ctx) \<or> fragSize (snd nc) < k)"

lemma newBelow_same: "namedFragmentMap b = namedFragmentMap a \<Longrightarrow> newBelow k a b"
  by (simp add: newBelow_def)

lemma newBelow_trans:
  "newBelow k a b \<Longrightarrow> newBelow k' b c \<Longrightarrow> k' \<le> k \<Longrightarrow> newBelow k a c"
  by (fastforce simp: newBelow_def)

lemma newBelow_frame:
  "newBelow k a b \<Longrightarrow> namedFragmentMap c = namedFragmentMap b \<Longrightarrow> newBelow k a c"
  by (simp add: newBelow_def)

lemma newBelow_frame_left:
  "newBelow k a b \<Longrightarrow> namedFragmentMap a = namedFragmentMap a' \<Longrightarrow> newBelow k a' b"
  by (simp add: newBelow_def)

lemma newBelow_children:
  assumes f: "foldE acceptSelection cs b = Inr b'"
    and ih: "\<And>c u u'. c \<in> set cs \<Longrightarrow> acceptSelection c u = Inr u' \<Longrightarrow> newBelow (fragSize c) u u'"
    and sz: "\<And>c. c \<in> set cs \<Longrightarrow> fragSize c < K"
  shows "newBelow K b b'"
proof (rule foldE_invariant[OF f, where P = "\<lambda>u. newBelow K b u"])
  show "newBelow K b b" by (simp add: newBelow_same)
next
  fix c u u'
  assume c: "c \<in> set cs" and u: "newBelow K b u" and a: "acceptSelection c u = Inr u'"
  from newBelow_trans[OF u ih[OF c a]] sz[OF c] show "newBelow K b u'" by simp
qed

lemma newBelow_registerFragments:
  assumes r: "registerFragments fn cs b = Inr b'"
    and sz: "\<And>c. c \<in> set cs \<Longrightarrow> fragSize c < K"
  shows "newBelow K b b'"
proof -
  let ?old = "case map_get (namedFragmentMap b) fn of None \<Rightarrow> None | Some v \<Rightarrow> v"
  from r have f: "foldE (\<lambda>c cx. if ?old \<noteq> None \<and> ?old \<noteq> c
                        then Inl (Error (''Conflict fragment name '' @ fn))
                        else Inr (cx\<lparr> namedFragmentMap := map_set fn c (namedFragmentMap cx) \<rparr>))
           cs b = Inr b'"
    by (simp add: registerFragments_def Let_def)
  show ?thesis
  proof (rule foldE_invariant[OF f, where P = "\<lambda>u. newBelow K b u"])
    show "newBelow K b b" by (simp add: newBelow_same)
  next
    fix c u u'
    assume c: "c \<in> set cs" and u: "newBelow K b u"
      and a: "(if ?old \<noteq> None \<and> ?old \<noteq> c
                        then Inl (Error (''Conflict fragment name '' @ fn))
                        else Inr (u\<lparr> namedFragmentMap := map_set fn c (namedFragmentMap u) \<rparr>)) = Inr u'"
    then have u': "namedFragmentMap u' = map_set fn c (namedFragmentMap u)"
      by (auto split: if_splits)
    show "newBelow K b u'"
      unfolding newBelow_def u' map_set_def
      using set_update_subset[of fn c "namedFragmentMap u"] u sz[OF c]
      by (fastforce simp: newBelow_def)
  qed
qed

lemma fragSize_child:
  assumes "x \<in> set (map snd (buildFieldMap s))" "childSelections x = Some cs" "c \<in> set cs"
  shows "fragSize c < size s"
proof (cases c)
  case None
  have "0 < size s" by (cases s) simp
  with None show ?thesis by (simp add: fragSize_def)
next
  case (Some c')
  from assms(1) obtain k where "(k, x) \<in> set (buildFieldMap s)" by auto
  from children_smaller[OF this assms(2)] assms(3) Some show ?thesis by (simp add: fragSize_def)
qed

lemma acceptSelection_newBelow:
  "acceptSelection sel ctx = Inr ctx' \<Longrightarrow> newBelow (fragSize sel) ctx ctx'"
proof (induction sel ctx arbitrary: ctx' rule: acceptSelection.induct)
  case (1 sel ctx)
  from "1.prems" obtain s where s: "sel = Some s"
    by (cases sel) (auto simp: acceptSelection.simps[of None])
  let ?step = "\<lambda>fld ctx0.
               case (if fs_name fld \<noteq> ''...'' then acceptFieldHead s fld ctx0 else Inr ctx0) of
                 Inl e \<Rightarrow> Inl e
               | Inr ctx1 \<Rightarrow>
                   (case (case childSelections fld of
                            None \<Rightarrow> Inr ctx1
                          | Some children \<Rightarrow>
                              if children = [] then Inr ctx1
                              else if fs_name fld = ''...''
                              then foldE acceptSelection children ctx1
                              else if startsWith (fs_name fld) ''...''
                                      \<and> \<not> startsWith (fs_name fld) ''... on ''
                              then registerFragments (trim (drop 3 (fs_name fld))) children ctx1
                              else
                                (case foldE acceptSelection children
                                        ((emit '' '' ctx1)\<lparr> writer :=
                                            scope_enter (blockScope True None) (writer (emit '' '' ctx1)) \<rparr>) of
                                   Inl e \<Rightarrow> Inl e
                                 | Inr ctx2 \<Rightarrow>
                                     Inr (ctx2\<lparr> writer :=
                                            scope_leave (blockScope True None) (writer ctx2) \<rparr>))) of
                      Inl e \<Rightarrow> Inl e
                    | Inr ctx3 \<Rightarrow> Inr (emit [CHR 0x0A] ctx3))"
  from "1.prems" s have f: "foldE ?step (map snd (buildFieldMap s)) ctx = Inr ctx'"
    by (simp add: acceptSelection.simps[of "Some s"])
  have "newBelow (size s) ctx ctx'"
  proof (rule foldE_invariant[OF f, where P = "\<lambda>u. newBelow (size s) ctx u"])
    show "newBelow (size s) ctx ctx" by (simp add: newBelow_same)
  next
    fix x u u'
    assume x: "x \<in> set (map snd (buildFieldMap s))" and u: "newBelow (size s) ctx u"
      and st: "?step x u = Inr u'"
    from st obtain b where b: "(if fs_name x \<noteq> ''...'' then acceptFieldHead s x u else Inr u) = Inr b"
      by (auto split: sum.splits)
    then have nb: "namedFragmentMap b = namedFragmentMap u"
      by (auto split: if_splits dest: nfm_acceptFieldHead)
    from st b obtain c3 where c3: "(case childSelections x of
                            None \<Rightarrow> Inr b
                          | Some children \<Rightarrow>
                              if children = [] then Inr b
                              else if fs_name x = ''...''
                              then foldE acceptSelection children b
                              else if startsWith (fs_name x) ''...''
                                      \<and> \<not> startsWith (fs_name x) ''... on ''
                              then registerFragments (trim (drop 3 (fs_name x))) children b
                              else
                                (case foldE acceptSelection children
                                        ((emit '' '' b)\<lparr> writer :=
                                            scope_enter (blockScope True None) (writer (emit '' '' b)) \<rparr>) of
                                   Inl e \<Rightarrow> Inl e
                                 | Inr ctx2 \<Rightarrow>
                                     Inr (ctx2\<lparr> writer :=
                                            scope_leave (blockScope True None) (writer ctx2) \<rparr>))) = Inr c3"
      and u': "u' = emit [CHR 0x0A] c3"
      by (auto split: sum.splits)
    have "newBelow (size s) b c3"
    proof (cases "childSelections x")
      case None
      with c3 show ?thesis by (simp add: newBelow_same)
    next
      case (Some cs)
      have sz: "\<And>c. c \<in> set cs \<Longrightarrow> fragSize c < size s"
        using fragSize_child[OF x Some] by simp
      show ?thesis
      proof (cases "cs = []")
        case True
        with c3 Some show ?thesis by (simp add: newBelow_same)
      next
        case False
        show ?thesis
        proof (cases "fs_name x = ''...''")
          case True
          with c3 Some False have f2: "foldE acceptSelection cs b = Inr c3" by simp
          show ?thesis
          proof (rule newBelow_children[OF f2 _ sz])
            fix c v v'
            assume "c \<in> set cs" "acceptSelection c v = Inr v'"
            then show "newBelow (fragSize c) v v'"
              using "1.IH"(1)[OF s x b Some False True] by simp
          qed
        next
          case nd: False
          show ?thesis
          proof (cases "startsWith (fs_name x) ''...'' \<and> \<not> startsWith (fs_name x) ''... on ''")
            case True
            with c3 Some False nd have "registerFragments (trim (drop 3 (fs_name x))) cs b = Inr c3"
              by simp
            from newBelow_registerFragments[OF this sz] show ?thesis by simp
          next
            case nf: False
            with c3 Some False nd obtain c2 where
              f2: "foldE acceptSelection cs
                     ((emit '' '' b)\<lparr> writer := scope_enter (blockScope True None) (writer (emit '' '' b)) \<rparr>)
                   = Inr c2"
              and c3': "c3 = c2\<lparr> writer := scope_leave (blockScope True None) (writer c2) \<rparr>"
              by (auto split: sum.splits)
            have "newBelow (size s)
                    ((emit '' '' b)\<lparr> writer := scope_enter (blockScope True None) (writer (emit '' '' b)) \<rparr>) c2"
            proof (rule newBelow_children[OF f2 _ sz])
              fix c v v'
              assume "c \<in> set cs" "acceptSelection c v = Inr v'"
              then show "newBelow (fragSize c) v v'"
                using "1.IH"(2)[OF s x b Some False nd nf] by simp
            qed
            then show ?thesis
              unfolding c3' by (simp add: newBelow_def)
          qed
        qed
      qed
    qed
    then have "newBelow (size s) u u'"
      unfolding u' using nb by (simp add: newBelow_def)
    from newBelow_trans[OF u this] show "newBelow (size s) ctx u'" by simp
  qed
  then show ?case using s by (simp add: fragSize_def)
qed


text \<open>
  \<open>Set.prototype.add\<close> returns the set it was called on, and an object is truthy: the
  test \<open>if (renderedFragments.add(name))\<close> reads the truth value of the set.
\<close>

definition Set_add :: "'a \<Rightarrow> 'a list \<Rightarrow> 'a list" where
  "Set_add x xs = (if x \<in> set xs then xs else xs @ [x])"

definition truthy_object :: "'a \<Rightarrow> bool" where
  "truthy_object obj = True"

definition new_SerializeContext :: "textBuilder \<Rightarrow> serializeContext option \<Rightarrow> serializeContext" where
  "new_SerializeContext w prv =
     \<lparr> writer = w, namedFragmentMap = [],
       variableTypeMap = (case prv of None \<Rightarrow> [] | Some p \<Rightarrow> variableTypeMap p),
       console = (case prv of None \<Rightarrow> [] | Some p \<Rightarrow> console p) \<rparr>"

text \<open>The body of the loop over the pending fragments; \<open>ctx\<close> writes to the fragment writer.\<close>

definition renderFragment ::
  "string \<times> selection option \<Rightarrow> serializeContext \<times> string list \<Rightarrow>
   error + serializeContext \<times> string list" where
  "renderFragment entry st =
     (let name = fst entry; fragment = snd entry; ctx = fst st;
          renderedFragments = Set_add name (snd st)
      in if truthy_object renderedFragments then
           (case fragment of
              None \<Rightarrow> Inl TypeError
            | Some f \<Rightarrow>
                (case acceptDirectives (Some (buildDirectiveMap f))
                        (emit (''fragment '' @ name @ '' on '' @ st_name (schemaType_of f) @ '' '') ctx) of
                   Inl e \<Rightarrow> Inl e
                 | Inr ctx1 \<Rightarrow>
                     (case acceptSelection (Some f)
                             (ctx1\<lparr> writer := scope_enter (blockScope True (Some [CHR 0x0A])) (writer ctx1) \<rparr>) of
                        Inl e \<Rightarrow> Inl e
                      | Inr ctx2 \<Rightarrow>
                          Inr (ctx2\<lparr> writer := scope_leave (blockScope True (Some [CHR 0x0A])) (writer ctx2) \<rparr>,
                               renderedFragments))))
         else Inr (ctx, renderedFragments))"

lemma renderFragment_newBelow:
  assumes "renderFragment entry (ctx, r) = Inr (ctx', r')"
  shows "newBelow (fragSize (snd entry)) ctx ctx'"
proof -
  from assms obtain f ctx1 ctx2 where f: "snd entry = Some f"
    and d: "acceptDirectives (Some (buildDirectiveMap f))
              (emit (''fragment '' @ fst entry @ '' on '' @ st_name (schemaType_of f) @ '' '') ctx) = Inr ctx1"
    and a: "acceptSelection (Some f)
              (ctx1\<lparr> writer := scope_enter (blockScope True (Some [CHR 0x0A])) (writer ctx1) \<rparr>) = Inr ctx2"
    and c: "ctx' = ctx2\<lparr> writer := scope_leave (blockScope True (Some [CHR 0x0A])) (writer ctx2) \<rparr>"
    by (auto simp: renderFragment_def Let_def truthy_object_def split: option.splits sum.splits)
  from nfm_acceptDirectives[OF d] have "namedFragmentMap ctx1 = namedFragmentMap ctx" by simp
  with acceptSelection_newBelow[OF a] f c show ?thesis
    by (simp add: newBelow_def)
qed

lemma renderFragments_newBelow:
  assumes "foldE renderFragment fm (ctx, r) = Inr (ctx', r')"
  shows "\<forall>nc\<in>set (namedFragmentMap ctx').
           nc \<in> set (namedFragmentMap ctx) \<or> (\<exists>e\<in>set fm. fragSize (snd nc) < fragSize (snd e))"
proof -
  let ?P = "\<lambda>st. \<forall>nc\<in>set (namedFragmentMap (fst st)).
           nc \<in> set (namedFragmentMap ctx) \<or> (\<exists>e\<in>set fm. fragSize (snd nc) < fragSize (snd e))"
  have "?P (ctx', r')"
  proof (rule foldE_invariant[OF assms, where P = ?P])
    show "?P (ctx, r)" by simp
  next
    fix x u u'
    assume x: "x \<in> set fm" and u: "?P u" and s: "renderFragment x u = Inr u'"
    obtain c1 r1 c2 r2 where uu: "u = (c1, r1)" "u' = (c2, r2)" by (cases u, cases u') auto
    from renderFragment_newBelow[of x c1 r1 c2 r2] s uu
    have "newBelow (fragSize (snd x)) c1 c2" by simp
    with u x uu show "?P u'" by (fastforce simp: newBelow_def)
  qed
  then show ?thesis by simp
qed

lemma pendingMeasure_decreases:
  assumes "fm \<noteq> []"
    and "foldE renderFragment fm (ctx, r) = Inr (ctx', r')"
    and "namedFragmentMap ctx = []"
  shows "pendingMeasure (namedFragmentMap ctx') < pendingMeasure fm"
proof -
  let ?g = "\<lambda>nc :: string \<times> selection option. Suc (fragSize (snd nc))"
  have fin: "finite (insert 0 (?g ` set fm))" by simp
  have "\<forall>a \<in> insert 0 (?g ` set (namedFragmentMap ctx')). a < pendingMeasure fm"
  proof
    fix a
    assume a: "a \<in> insert 0 (?g ` set (namedFragmentMap ctx'))"
    show "a < pendingMeasure fm"
    proof (cases "a = 0")
      case True
      from assms(1) obtain e where "e \<in> set fm" by (cases fm) auto
      then have "?g e \<le> pendingMeasure fm"
        unfolding pendingMeasure_def by (intro Max_ge) auto
      with True show ?thesis by simp
    next
      case False
      with a obtain nc where nc: "nc \<in> set (namedFragmentMap ctx')" "a = ?g nc" by auto
      from renderFragments_newBelow[OF assms(2)] nc(1) assms(3)
      obtain e where e: "e \<in> set fm" "fragSize (snd nc) < fragSize (snd e)" by auto
      from e(1) have "?g e \<le> pendingMeasure fm"
        unfolding pendingMeasure_def by (intro Max_ge) auto
      with e(2) nc(2) show ?thesis by simp
    qed
  qed
  then show ?thesis
    unfolding pendingMeasure_def[of "namedFragmentMap ctx'"] by (subst Max_less_iff) auto
qed

text \<open>The loop \<open>while (true)\<close> of \<open>serialize\<close>.\<close>

function drain ::
  "serializeContext \<Rightarrow> textBuilder \<Rightarrow> string list \<Rightarrow> error + serializeContext \<times> textBuilder" where
  "drain ctx fragmentWriter renderedFragments =
     (let fragmentMap = namedFragmentMap ctx in
      if fragmentMap = [] then Inr (ctx, fragmentWriter)
      else
        (case foldE renderFragment fragmentMap
                (new_SerializeContext fragmentWriter (Some ctx), renderedFragments) of
           Inl e \<Rightarrow> Inl e
         | Inr (ctx', rendered') \<Rightarrow> drain ctx' (writer ctx') rendered'))"
  by pat_completeness auto
termination
proof (relation "measure (\<lambda>(ctx, w, r). pendingMeasure (namedFragmentMap ctx))")
  show "wf (measure (\<lambda>(ctx, w, r). pendingMeasure (namedFragmentMap ctx)))" by simp
next
  fix ctx :: serializeContext and fragmentWriter :: textBuilder and renderedFragments :: "string list"
    and fragmentMap and x :: "serializeContext \<times> string list" and ctx' rendered'
  assume fm: "fragmentMap = namedFragmentMap ctx" and ne: "fragmentMap \<noteq> []"
    and f: "foldE renderFragment fragmentMap
              (new_SerializeContext fragmentWriter (Some ctx), renderedFragments) = Inr x"
    and x: "(ctx', rendered') = x"
  have "namedFragmentMap (new_SerializeContext fragmentWriter (Some ctx)) = []"
    by (simp add: new_SerializeContext_def)
  from pendingMeasure_decreases[OF ne _ this, of renderedFragments ctx' rendered'] f x fm
  show "((ctx', writer ctx', rendered'), (ctx, fragmentWriter, renderedFragments))
        \<in> measure (\<lambda>(ctx, w, r). pendingMeasure (namedFragmentMap ctx))"
    by simp
qed

declare drain.simps [simp del]

record serializedResult =
  sr_text :: string
  fragmentText :: string
  sr_variableTypeMap :: "(string \<times> string) list"

definition serialize :: "selection \<Rightarrow> error + serializedResult" where
  "serialize root =
     (let ctx = new_SerializeContext new_TextBuilder None;
          fragmentWriter = new_TextBuilder
      in case acceptDirectives (Some (buildDirectiveMap root)) ctx of
           Inl e \<Rightarrow> Inl e
         | Inr ctx1 \<Rightarrow>
             (case acceptSelection (Some root)
                     (ctx1\<lparr> writer := scope_enter (blockScope True (Some [CHR 0x0A])) (writer ctx1) \<rparr>) of
                Inl e \<Rightarrow> Inl e
              | Inr ctx2 \<Rightarrow>
                  (let ctx3 = ctx2\<lparr> writer := scope_leave (blockScope True (Some [CHR 0x0A])) (writer ctx2) \<rparr>
                   in case drain ctx3 fragmentWriter [] of
                        Inl e \<Rightarrow> Inl e
                      | Inr (ctxN, fragmentWriterN) \<Rightarrow>
                          Inr \<lparr> sr_text = result (writer ctx3),
                                fragmentText = result fragmentWriterN,
                                sr_variableTypeMap = variableTypeMap ctxN \<rparr>)))"

text \<open>The body of the loop of \<open>acceptSelection\<close> over the entries of the field map, by name.\<close>

definition acceptField :: "selection \<Rightarrow> fieldSelection \<Rightarrow> serializeContext \<Rightarrow> error + serializeContext" where
  "acceptField s fld ctx0 =
     (case (if fs_name fld \<noteq> ''...'' then acceptFieldHead s fld ctx0 else Inr ctx0) of
        Inl e \<Rightarrow> Inl e
      | Inr ctx1 \<Rightarrow>
          (case (case childSelections fld of
                   None \<Rightarrow> Inr ctx1
                 | Some children \<Rightarrow>
                     if children = [] then Inr ctx1
                     else if fs_name fld = ''...''
                     then foldE (\<lambda>c cx. acceptSelection c cx) children ctx1
                     else if startsWith (fs_name fld) ''...''
                             \<and> \<not> startsWith (fs_name fld) ''... on ''
                     then registerFragments (trim (drop 3 (fs_name fld))) children ctx1
                     else
                       (case foldE (\<lambda>c cx. acceptSelection c cx) children
                               ((emit '' '' ctx1)\<lparr> writer :=
                                   scope_enter (blockScope True None) (writer (emit '' '' ctx1)) \<rparr>) of
                          Inl e \<Rightarrow> Inl e
                        | Inr ctx2 \<Rightarrow>
                            Inr (ctx2\<lparr> writer :=
                                   scope_leave (blockScope True None) (writer ctx2) \<rparr>))) of
             Inl e \<Rightarrow> Inl e
           | Inr ctx3 \<Rightarrow> Inr (emit [CHR 0x0A] ctx3)))"

text \<open>
  A root type with a scalar field that takes three optional arguments and an association
  field with one required and one optional argument.
\<close>

definition ex_Query :: schemaType where
  "ex_Query = SchemaType ''Query'' OBJECT []
     (declareFields
        [DescObject \<lparr> d_name = ''count'', d_category = F_SCALAR, d_undefinable = None,
                      d_argGraphQLTypeMap = Some [(''first'', ''Int''), (''after'', ''String''), (''id'', ''ID'')],
                      d_targetTypeName = None, d_connectionTypeName = None, d_edgeTypeName = None \<rparr>,
         DescObject \<lparr> d_name = ''post'', d_category = F_REFERENCE, d_undefinable = None,
                      d_argGraphQLTypeMap = Some [(''id'', ''ID!''), (''draft'', ''Boolean'')],
                      d_targetTypeName = Some ''Post'', d_connectionTypeName = None,
                      d_edgeTypeName = None \<rparr>] [])"

definition ex_queryRoot :: selection where
  "ex_queryRoot = createSelection ex_Query [] None"

definition ex_registry :: registry where
  "ex_registry = registerSchemaType (registerSchemaType [] ex_Post) ex_Query"

text \<open>Two selections of \<open>Post\<close> used as fragments, and the count of a text inside another.\<close>

definition ex_fragF :: selection where
  "ex_fragF = addField ex_root ''id'' None None None"

definition ex_fragH :: selection where
  "ex_fragH = addField ex_root ''content'' None None None"

fun occurrences :: "string \<Rightarrow> string \<Rightarrow> nat" where
  "occurrences p [] = 0"
| "occurrences p (c # cs) = (if take (length p) (c # cs) = p then 1 else 0) + occurrences p cs"


subsection \<open>Selections of plain fields, and an association call\<close>

text \<open>
  A field map of plain fields: no entry is a spread, and none carries arguments, options
  or children. This is what a chain of property accesses on argument-less scalar fields
  builds.
\<close>

definition plainEntries :: "(string \<times> fieldSelection) list \<Rightarrow> bool" where
  "plainEntries m = list_all (\<lambda>e. fs_name (snd e) \<noteq> ''...'' \<and> fs_args (snd e) = None
                               \<and> fs_fieldOptionsValue (snd e) = None \<and> childSelections (snd e) = None) m"

text \<open>
  The field \<open>post\<close> of \<open>Query\<close> as \<open>createSchemaType\<close> builds it, and the callback
  \<open>(post) => post.id.title\<close>.
\<close>

definition ex_postField :: schemaField where
  "ex_postField = buildField ''post'' F_REFERENCE [(''id'', ''ID!''), (''draft'', ''Boolean'')]
                    (Some ''Post'') None None None"

definition ex_postBuilder :: "selection \<Rightarrow> error + selection option" where
  "ex_postBuilder post = Inr (Some (addField (addField post ''id'' None None None) ''title'' None None None))"

section \<open>Nodes as objects\<close>

text \<open>
  The values above identify a node with its content. To speak of mutation, the nodes are
  here objects on a heap: a reference is an index, the constructor appends an object, and
  an object holds its \<open>readonly\<close> members (with references where the source has them) and
  the two private memo members \<open>_fieldMap\<close> and \<open>_directiveMap\<close>, which the getters fill.
  (The third memo, \<open>_result\<close>, is of the same kind and is left out; \<open>serialize\<close> reads nodes
  through the two getters and the read-only members only.)
\<close>

record node =
  n_ctx :: "nat + schemaType \<times> enumInputMetadata \<times> string list option"
  n_negative :: bool
  n_field :: string
  n_args :: "jsobj option"
  n_child :: "nat option"
  n_fieldOptionsValue :: "fieldOptionsValue option"
  n_directive :: "string option"
  n_directiveArgs :: "jsobj option"
  memo_fieldMap :: "(string \<times> fieldSelection) list option"
  memo_directiveMap :: "(string \<times> jsobj option) list option"

type_synonym heap = "node list"

text \<open>The read-only part of an object: the object with its memo members blanked.\<close>

definition readonly :: "node \<Rightarrow> node" where
  "readonly n = n\<lparr> memo_fieldMap := None, memo_directiveMap := None \<rparr>"

definition new_SelectionImpl ::
  "nat + schemaType \<times> enumInputMetadata \<times> string list option \<Rightarrow> bool \<Rightarrow> string \<Rightarrow> jsobj option \<Rightarrow>
   nat option \<Rightarrow> fieldOptionsValue option \<Rightarrow> string option \<Rightarrow> jsobj option \<Rightarrow> heap \<Rightarrow> nat \<times> heap" where
  "new_SelectionImpl ctx negative fld args child optionsValue directive directiveArgs h =
     (length h,
      h @ [\<lparr> n_ctx = ctx, n_negative = negative, n_field = fld, n_args = args, n_child = child,
              n_fieldOptionsValue = optionsValue, n_directive = directive,
              n_directiveArgs = directiveArgs, memo_fieldMap = None, memo_directiveMap = None \<rparr>])"

text \<open>
  What the read-only members reachable from a reference hold, as a value of the type
  \<open>selection\<close>. A reference is to an object built earlier, hence a smaller index; where
  that fails, or the reference is outside the heap, there is no value (the reference
  stands for \<open>undefined\<close>).
\<close>

function sel_of :: "heap \<Rightarrow> nat \<Rightarrow> selection option" where
  "sel_of h r =
     (if r < length h then
        (case (case n_ctx (h ! r) of
                 Inl p \<Rightarrow> if p < r then map_option Prev (sel_of h p) else None
               | Inr (t, m, u) \<Rightarrow> Some (Root t m u)) of
           None \<Rightarrow> None
         | Some ctx \<Rightarrow>
             (case (case n_child (h ! r) of
                      None \<Rightarrow> Some None
                    | Some c \<Rightarrow> if c < r then map_option Some (sel_of h c) else None) of
                None \<Rightarrow> None
              | Some child \<Rightarrow>
                  Some (SelectionImpl ctx (n_negative (h ! r)) (n_field (h ! r)) (n_args (h ! r)) child
                          (n_fieldOptionsValue (h ! r)) (n_directive (h ! r))
                          (n_directiveArgs (h ! r)))))
      else None)"
  by pat_completeness auto
termination by (relation "measure snd") auto

declare sel_of.simps [simp del]

subsection \<open>The builders and the getters on the heap\<close>

definition createSelection_h ::
  "schemaType \<Rightarrow> enumInputMetadata \<Rightarrow> string list option \<Rightarrow> heap \<Rightarrow> nat \<times> heap" where
  "createSelection_h schemaType enumInputMetadata unionEntityTypes h =
     new_SelectionImpl (Inr (schemaType, enumInputMetadata, unionEntityTypes)) False [] None None None
       None None h"

definition addField_h ::
  "nat \<Rightarrow> string \<Rightarrow> jsobj option \<Rightarrow> nat option \<Rightarrow> fieldOptionsValue option \<Rightarrow> heap \<Rightarrow> nat \<times> heap" where
  "addField_h this fld args child optionsValue h =
     new_SelectionImpl (Inl this) False fld args child optionsValue None None h"

definition removeField_h :: "nat \<Rightarrow> string \<Rightarrow> heap \<Rightarrow> error + nat \<times> heap" where
  "removeField_h this fld h =
     (if fld = ''__typename'' then Inl (Error ''__typename cannot be removed'')
      else Inr (new_SelectionImpl (Inl this) True fld None None None None None h))"

definition addEmbeddable_h :: "nat \<Rightarrow> nat \<Rightarrow> string option \<Rightarrow> heap \<Rightarrow> error + nat \<times> heap" where
  "addEmbeddable_h this child fragmentName h =
     (case fragmentName of
        Some fname \<Rightarrow>
          if length fname = 0
          then Inl (Error (''fragmentName cannot be '' @ [CHR 0x27, CHR 0x27]))
          else if startsWith fname ''on ''
          then Inl (Error (''fragmentName cannot start with '' @ [CHR 0x27] @ ''on '' @ [CHR 0x27]))
          else Inr (new_SelectionImpl (Inl this) False (''... '' @ fname) None (Some child) None None None h)
      | None \<Rightarrow>
          (case sel_of h child of
             None \<Rightarrow> Inl TypeError
           | Some c \<Rightarrow>
               (case sel_of h this of
                  None \<Rightarrow> Inl TypeError
                | Some t \<Rightarrow>
                    if st_name (schemaType_of c) = st_name (schemaType_of t)
                       \<or> unionItemTypes_of c \<noteq> None
                    then Inr (new_SelectionImpl (Inl this) False ''...'' None (Some child) None None None h)
                    else Inr (new_SelectionImpl (Inl this) False
                                (''... on '' @ st_name (schemaType_of c)) None (Some child)
                                None None None h))))"

definition addDirective_h :: "nat \<Rightarrow> string \<Rightarrow> jsobj option \<Rightarrow> heap \<Rightarrow> nat \<times> heap" where
  "addDirective_h this directive directiveArgs h =
     new_SelectionImpl (Inl this) False [] None None None (Some directive) directiveArgs h"

text \<open>
  The getters \<open>fieldMap\<close> and \<open>directiveMap\<close>: \<open>this._fieldMap ??= this._buildFieldMap()\<close>.
  The build reads only read-only members of the nodes reachable from \<open>this\<close>; the one
  write is to the memo member of \<open>this\<close>.
\<close>

definition get_fieldMap :: "nat \<Rightarrow> heap \<Rightarrow> error + (string \<times> fieldSelection) list \<times> heap" where
  "get_fieldMap this h =
     (case sel_of h this of
        None \<Rightarrow> Inl TypeError
      | Some s \<Rightarrow>
          (case memo_fieldMap (h ! this) of
             Some cached \<Rightarrow> Inr (cached, h)
           | None \<Rightarrow> (let built = buildFieldMap s
                      in Inr (built, h[this := (h ! this)\<lparr> memo_fieldMap := Some built \<rparr>]))))"

definition get_directiveMap :: "nat \<Rightarrow> heap \<Rightarrow> error + (string \<times> jsobj option) list \<times> heap" where
  "get_directiveMap this h =
     (case sel_of h this of
        None \<Rightarrow> Inl TypeError
      | Some s \<Rightarrow>
          (case memo_directiveMap (h ! this) of
             Some cached \<Rightarrow> Inr (cached, h)
           | None \<Rightarrow> (let built = buildDirectiveMap s
                      in Inr (built, h[this := (h ! this)\<lparr> memo_directiveMap := Some built \<rparr>]))))"

subsection \<open>Programs over the heap\<close>

text \<open>
  A call names its receiver and its node arguments by reference and yields a reference or
  a map. A method called on a reference that stands for \<open>undefined\<close> throws a \<open>TypeError\<close>.
  A program is a list of calls, run until one throws.
\<close>

datatype call =
    CreateSelection schemaType enumInputMetadata "string list option"
  | AddField nat string "jsobj option" "nat option" "fieldOptionsValue option"
  | RemoveField nat string
  | AddEmbeddable nat nat "string option"
  | AddDirective nat string "jsobj option"
  | FieldMap nat
  | DirectiveMap nat

datatype outcome =
    NodeRef nat
  | FieldMapValue "(string \<times> fieldSelection) list"
  | DirectiveMapValue "(string \<times> jsobj option) list"

definition on_receiver :: "heap \<Rightarrow> nat \<Rightarrow> (error + 'a) \<Rightarrow> error + 'a" where
  "on_receiver h this res = (if sel_of h this = None then Inl TypeError else res)"

fun exec :: "call \<Rightarrow> heap \<Rightarrow> error + outcome \<times> heap" where
  "exec (CreateSelection t m u) h = Inr (apfst NodeRef (createSelection_h t m u h))"
| "exec (AddField this fld args child opts) h =
     on_receiver h this (Inr (apfst NodeRef (addField_h this fld args child opts h)))"
| "exec (RemoveField this fld) h =
     on_receiver h this (map_sum id (apfst NodeRef) (removeField_h this fld h))"
| "exec (AddEmbeddable this child fragmentName) h =
     on_receiver h this (map_sum id (apfst NodeRef) (addEmbeddable_h this child fragmentName h))"
| "exec (AddDirective this directive directiveArgs) h =
     on_receiver h this (Inr (apfst NodeRef (addDirective_h this directive directiveArgs h)))"
| "exec (FieldMap this) h = map_sum id (apfst FieldMapValue) (get_fieldMap this h)"
| "exec (DirectiveMap this) h = map_sum id (apfst DirectiveMapValue) (get_directiveMap this h)"

fun run :: "call list \<Rightarrow> heap \<Rightarrow> error + outcome list \<times> heap" where
  "run [] h = Inr ([], h)"
| "run (c # cs) h =
     (case exec c h of
        Inl e \<Rightarrow> Inl e
      | Inr (v, h1) \<Rightarrow>
          (case run cs h1 of
             Inl e \<Rightarrow> Inl e
           | Inr (vs, h2) \<Rightarrow> Inr (v # vs, h2)))"

definition fresh_for :: "heap \<Rightarrow> outcome \<Rightarrow> bool" where
  "fresh_for h v = (case v of NodeRef n \<Rightarrow> length h \<le> n | _ \<Rightarrow> True)"

text \<open>
  What a later heap keeps of an earlier one: every object of the earlier heap is still
  there with the same read-only members, and its two getters return what they returned.
\<close>

definition preserved :: "heap \<Rightarrow> heap \<Rightarrow> bool" where
  "preserved h h' =
     (length h \<le> length h' \<and>
      (\<forall>i<length h. readonly (h' ! i) = readonly (h ! i)
         \<and> map_sum id fst (get_fieldMap i h') = map_sum id fst (get_fieldMap i h)
         \<and> map_sum id fst (get_directiveMap i h') = map_sum id fst (get_directiveMap i h)))"

text \<open>
  A heap with a base: the root selection of \<open>Post\<close> at reference 0 and \<open>root.title\<close> at
  reference 1. The program fans out from the base: \<open>base.content\<close> (reference 2),
  \<open>base.$omit("title")\<close> (reference 3) and a directive on the base (reference 4) are
  built, their maps are read, and then the maps of the base are read.
\<close>

definition ex_base :: selection where
  "ex_base = addField ex_root ''title'' None None None"

definition ex_baseHeap :: heap where
  "ex_baseHeap =
     (case run [CreateSelection ex_Post [] None, AddField 0 ''title'' None None None] [] of
        Inl e \<Rightarrow> []
      | Inr (vs, h) \<Rightarrow> h)"

definition ex_fanOut :: "call list" where
  "ex_fanOut =
     [AddField 1 ''content'' None None None, RemoveField 1 ''title'', FieldMap 2, FieldMap 3,
      AddDirective 1 ''skip'' None, DirectiveMap 4, FieldMap 1, DirectiveMap 1]"

subsection \<open>Where a key stands in the table\<close>

text \<open>
  In a chain of adds and removes, oldest first, a key is live when its last operation is
  an add. The add that inserts a key is one that finds the key not live (the key was never
  added, or removed since) and that no later remove of the key follows; the inserters of
  a chain are these adds, in chain order.
\<close>

definition live :: "string \<Rightarrow> selection list \<Rightarrow> bool" where
  "live k ns = (case lastOn k ns of None \<Rightarrow> False | Some m \<Rightarrow> \<not> s_negative m)"

definition inserts :: "selection list \<Rightarrow> selection \<Rightarrow> selection list \<Rightarrow> bool" where
  "inserts before n after =
     (\<not> s_negative n \<and> \<not> live (nodeKey n) before
      \<and> \<not> list_ex (\<lambda>m. s_negative m \<and> nodeKey m = nodeKey n) after)"

fun insertersFrom :: "selection list \<Rightarrow> selection list \<Rightarrow> selection list" where
  "insertersFrom before [] = []"
| "insertersFrom before (n # after) =
     (if inserts before n after then [n] else []) @ insertersFrom (before @ [n]) after"

definition inserters :: "selection list \<Rightarrow> selection list" where
  "inserters ns = insertersFrom [] ns"

text \<open>
  \<open>root.id.title.content.$omit("id")\<close>, and \<open>id\<close> selected again after that.
\<close>

definition ex_omitted :: selection where
  "ex_omitted =
     SelectionImpl
       (Prev (addField (addField (addField ex_root ''id'' None None None) ''title'' None None None)
                ''content'' None None None))
       True ''id'' None None None None None"

section \<open>Properties\<close>

subsection \<open>The fold of a chain\<close>

lemma map_of_replayNode:
  assumes "\<not> startsWith (s_field n) ''...''"
  shows "map_of (replayNode m n) =
         (map_of m)(nodeKey n := (if s_negative n then None else Some (fieldEntry n)))"
  using assms
  by (auto simp: replayNode_def Let_def map_set_def map_delete_def update_conv' delete_conv')

lemma distinct_replayNode:
  "distinct (map fst m) \<Longrightarrow> distinct (map fst (replayNode m n))"
  by (auto simp: replayNode_def Let_def map_set_def map_delete_def distinct_update distinct_delete
      split: option.splits)

lemma distinct_foldl_replayNode:
  "distinct (map fst m) \<Longrightarrow> distinct (map fst (foldl replayNode m ns))"
  by (induction ns arbitrary: m) (auto simp: distinct_replayNode)

lemma distinct_replay: "distinct (map fst (replay ns))"
  by (simp add: replay_def distinct_foldl_replayNode)

lemma lastOn_Nil: "lastOn k [] = None"
  by (simp add: lastOn_def)

lemma lastOn_snoc:
  "lastOn k (ns @ [n]) = (if nodeKey n = k then Some n else lastOn k ns)"
  by (simp add: lastOn_def)

lemma find_append_case:
  "List.find P (xs @ ys) = (case List.find P xs of None \<Rightarrow> List.find P ys | Some x \<Rightarrow> Some x)"
  by (induction xs) auto

lemma lastOn_Cons:
  "lastOn k (n # ns) =
     (case lastOn k ns of None \<Rightarrow> (if nodeKey n = k then Some n else None) | Some x \<Rightarrow> Some x)"
  by (simp add: lastOn_def find_append_case split: option.splits)

lemma lastOn_None_iff: "lastOn k ns = None \<longleftrightarrow> k \<notin> set (map nodeKey ns)"
  by (auto simp: lastOn_def find_None_iff)

text \<open>What a key is bound to after a chain of adds and removes: its last operation decides.\<close>

lemma map_of_foldl_replayNode:
  assumes "\<forall>n\<in>set ns. \<not> startsWith (s_field n) ''...''"
  shows "map_of (foldl replayNode m ns) k =
         (case lastOn k ns of
            None \<Rightarrow> map_of m k
          | Some n \<Rightarrow> if s_negative n then None else Some (fieldEntry n))"
  using assms
proof (induction ns rule: rev_induct)
  case Nil
  then show ?case by (simp add: lastOn_Nil)
next
  case (snoc n ns)
  then show ?case
    by (simp add: map_of_replayNode lastOn_snoc)
qed

lemma set_survivors: "set (survivors ns) \<subseteq> set ns"
  by (induction ns) auto

lemma lastOn_survivors:
  "lastOn k (survivors ns) =
     (case lastOn k ns of None \<Rightarrow> None | Some n \<Rightarrow> if s_negative n then None else Some n)"
proof (induction ns)
  case Nil
  then show ?case by (simp add: lastOn_Nil)
next
  case (Cons n ns)
  show ?case
  proof (cases "lastOn k ns")
    case None
    then have nk: "k \<notin> set (map nodeKey ns)" by (simp add: lastOn_None_iff)
    from None Cons have ih: "lastOn k (survivors ns) = None" by simp
    show ?thesis
    proof (cases "\<not> s_negative n \<and> nodeKey n \<notin> set (map nodeKey ns)")
      case True
      then show ?thesis using None ih by (simp add: lastOn_Cons)
    next
      case False
      with nk have "nodeKey n = k \<Longrightarrow> s_negative n" by auto
      with False show ?thesis using None ih by (auto simp: lastOn_Cons)
    qed
  next
    case (Some x)
    then have "k \<in> set (map nodeKey ns)"
      using lastOn_None_iff[of k ns] by auto
    then have "nodeKey n \<notin> set (map nodeKey ns) \<Longrightarrow> nodeKey n \<noteq> k" by auto
    with Some Cons show ?thesis
      by (auto simp: lastOn_Cons split: option.splits)
  qed
qed

lemma map_of_replay_survivors:
  assumes "\<forall>n\<in>set ns. \<not> startsWith (s_field n) ''...''"
  shows "map_of (replay (survivors ns)) = map_of (replay ns)"
proof
  fix k
  have s: "\<forall>n\<in>set (survivors ns). \<not> startsWith (s_field n) ''...''"
    using assms set_survivors by blast
  show "map_of (replay (survivors ns)) k = map_of (replay ns) k"
    unfolding replay_def
    by (simp add: map_of_foldl_replayNode[OF s] map_of_foldl_replayNode[OF assms] lastOn_survivors
        split: option.splits)
qed

lemma buildFieldMap_addField:
  "f \<noteq> [] \<Longrightarrow>
   buildFieldMap (addField s f a c opts) = replayNode (buildFieldMap s) (addField s f a c opts)"
  by (simp add: buildFieldMap_def replay_def addField_def)

lemma keys_replayNode_add:
  assumes "\<not> startsWith (s_field n) ''...''" "\<not> s_negative n"
  shows "map fst (replayNode m n) =
         (if nodeKey n \<in> set (map fst m) then map fst m else map fst m @ [nodeKey n])"
  using assms by (simp add: replayNode_def Let_def map_set_def update_keys)

lemma update_append: "k \<notin> fst ` set al \<Longrightarrow> AList.update k v al = al @ [(k, v)]"
  by (induction al) auto

lemma update_present:
  assumes "distinct (map fst al)" "k \<in> fst ` set al"
  shows "AList.update k v al = map (\<lambda>p. if fst p = k then (k, v) else p) al"
  using assms
proof (induction al)
  case Nil
  then show ?case by simp
next
  case (Cons p al)
  show ?case
  proof (cases "fst p = k")
    case True
    with Cons.prems(1) have "\<forall>q\<in>set al. fst q \<noteq> k" by (auto simp: image_iff)
    then have "map (\<lambda>p. if fst p = k then (k, v) else p) al = al" by (intro map_idI) simp
    with True show ?thesis by (cases p) simp
  next
    case False
    with Cons show ?thesis by (cases p) auto
  qed
qed

lemma delete_filter: "AList.delete k al = filter (\<lambda>p. fst p \<noteq> k) al"
  by (induction al) auto

lemma live_snoc:
  "live k (ns @ [n]) = (if nodeKey n = k then \<not> s_negative n else live k ns)"
  by (simp add: live_def lastOn_snoc)

lemma insertersFrom_snoc:
  "insertersFrom b (ns @ [n]) =
     (if s_negative n then filter (\<lambda>m. nodeKey m \<noteq> nodeKey n) (insertersFrom b ns)
      else if live (nodeKey n) (b @ ns) then insertersFrom b ns
      else insertersFrom b ns @ [n])"
proof (induction ns arbitrary: b)
  case Nil
  then show ?case by (simp add: inserts_def)
next
  case (Cons m ns)
  have i: "inserts b m (ns @ [n]) = (inserts b m ns \<and> \<not> (s_negative n \<and> nodeKey n = nodeKey m))"
    by (auto simp: inserts_def)
  show ?case
    using Cons[of "b @ [m]"] by (auto simp: i)
qed

lemma inserters_snoc:
  "inserters (ns @ [n]) =
     (if s_negative n then filter (\<lambda>m. nodeKey m \<noteq> nodeKey n) (inserters ns)
      else if live (nodeKey n) ns then inserters ns
      else inserters ns @ [n])"
  using insertersFrom_snoc[of "[]" ns n] by (simp add: inserters_def)


lemma live_iff_key:
  assumes "\<forall>n\<in>set ns. \<not> startsWith (s_field n) ''...''"
  shows "live k ns \<longleftrightarrow> k \<in> fst ` set (replay ns)"
proof -
  have "map_of (replay ns) k =
          (case lastOn k ns of None \<Rightarrow> None
           | Some n \<Rightarrow> if s_negative n then None else Some (fieldEntry n))"
    unfolding replay_def using map_of_foldl_replayNode[OF assms, of "[]" k]
    by (cases "lastOn k ns") simp_all
  then have "map_of (replay ns) k \<noteq> None \<longleftrightarrow> live k ns"
    by (simp add: live_def split: option.splits)
  then show ?thesis by (simp add: map_of_eq_None_iff)
qed

lemma replay_snoc: "replay (ns @ [n]) = replayNode (replay ns) n"
  by (simp add: replay_def)

lemma replay_inserters:
  assumes "\<forall>n\<in>set ns. \<not> startsWith (s_field n) ''...''"
  shows "replay ns = map (\<lambda>m. (nodeKey m, fieldEntry (the (lastOn (nodeKey m) ns)))) (inserters ns)"
  using assms
proof (induction ns rule: rev_induct)
  case Nil
  then show ?case by (simp add: replay_def inserters_def)
next
  case (snoc n ns)
  let ?E = "\<lambda>ns m. (nodeKey m, fieldEntry (the (lastOn (nodeKey m) ns)))"
  let ?k = "nodeKey n"
  from snoc.prems have ord: "\<forall>m\<in>set ns. \<not> startsWith (s_field m) ''...''"
    and nsp: "\<not> startsWith (s_field n) ''...''" by simp_all
  from snoc.IH[OF ord] have ih: "replay ns = map (?E ns) (inserters ns)" .
  have other: "\<And>m. nodeKey m \<noteq> ?k \<Longrightarrow> ?E (ns @ [n]) m = ?E ns m"
    by (simp add: lastOn_snoc)
  have same: "\<And>m. nodeKey m = ?k \<Longrightarrow> ?E (ns @ [n]) m = (?k, fieldEntry n)"
    by (simp add: lastOn_snoc)
  show ?case
  proof (cases "s_negative n")
    case True
    have "replay (ns @ [n]) = filter (\<lambda>p. fst p \<noteq> ?k) (map (?E ns) (inserters ns))"
      unfolding replay_snoc using True nsp
      by (simp add: replayNode_def Let_def map_delete_def delete_filter ih)
    also have "\<dots> = map (?E ns) (filter (\<lambda>m. nodeKey m \<noteq> ?k) (inserters ns))"
      by (simp add: filter_map comp_def)
    also have "\<dots> = map (?E (ns @ [n])) (filter (\<lambda>m. nodeKey m \<noteq> ?k) (inserters ns))"
      by (rule map_cong) (simp_all add: other)
    finally show ?thesis using True by (simp add: inserters_snoc)
  next
    case False
    have rn: "replay (ns @ [n]) = AList.update ?k (fieldEntry n) (replay ns)"
      unfolding replay_snoc using False nsp by (simp add: replayNode_def Let_def map_set_def)
    show ?thesis
    proof (cases "live ?k ns")
      case True
      then have "?k \<in> fst ` set (replay ns)" using live_iff_key[OF ord] by simp
      from update_present[OF distinct_replay this]
      have "replay (ns @ [n]) = map (\<lambda>p. if fst p = ?k then (?k, fieldEntry n) else p) (replay ns)"
        unfolding rn .
      also have "\<dots> = map (\<lambda>m. if nodeKey m = ?k then (?k, fieldEntry n) else ?E ns m) (inserters ns)"
        unfolding ih by (simp add: comp_def)
      also have "\<dots> = map (?E (ns @ [n])) (inserters ns)"
        by (rule map_cong) (auto simp: other same)
      finally show ?thesis using False True by (simp add: inserters_snoc)
    next
      case nl: False
      then have nk: "?k \<notin> fst ` set (replay ns)" using live_iff_key[OF ord] by simp
      have "\<And>m. m \<in> set (inserters ns) \<Longrightarrow> nodeKey m \<noteq> ?k"
      proof
        fix m assume m: "m \<in> set (inserters ns)" and e: "nodeKey m = ?k"
        from m have "nodeKey m \<in> fst ` set (map (?E ns) (inserters ns))" by force
        with e nk ih show False by simp
      qed
      then have keep: "map (?E (ns @ [n])) (inserters ns) = map (?E ns) (inserters ns)"
        by (intro map_cong) (simp_all add: other)
      have "replay (ns @ [n]) = replay ns @ [(?k, fieldEntry n)]"
        unfolding rn by (rule update_append[OF nk])
      then show ?thesis using False nl keep ih by (simp add: inserters_snoc same)
    qed
  qed
qed

lemma keys_of_entries: "map fst (map (\<lambda>m. (nodeKey m, g m)) xs) = map nodeKey xs"
  by (simp add: comp_def)

text \<open>
  C1 (as the code has it). For every node whose chain holds adds and removes of ordinary
  fields (no spread), the field map and the replay of the surviving subsequence of the
  chain hold the same entries under the same keys, each key once; they are equal up to
  the order of the entries. The order of the field map is that of the adds that inserted
  the keys: a key stands where the first add of the key after the last remove of the key
  (its first add, when it was never removed) put it, and it holds the entry of its last
  add. So an add whose key is in the table replaces the entry where it stands, an add of
  an absent key appends, and a remove takes the key out and leaves the others in order.
\<close>

theorem fieldMap_entries_and_order:
  assumes "list_all (\<lambda>n. \<not> startsWith (s_field n) ''...'') (nodes s)"
  shows "set (buildFieldMap s) = set (replay (survivors (rev (nodes s))))
       \<and> distinct (map fst (buildFieldMap s))
       \<and> distinct (map fst (replay (survivors (rev (nodes s)))))
       \<and> buildFieldMap s =
           map (\<lambda>m. (nodeKey m, fieldEntry (the (lastOn (nodeKey m) (rev (nodes s))))))
               (inserters (rev (nodes s)))"
proof -
  have ord: "\<forall>n\<in>set (rev (nodes s)). \<not> startsWith (s_field n) ''...''"
    using assms by (simp add: list_all_iff)
  have d1: "distinct (map fst (buildFieldMap s))"
    by (simp add: buildFieldMap_def distinct_replay)
  have d2: "distinct (map fst (replay (survivors (rev (nodes s)))))"
    by (rule distinct_replay)
  have "map_of (buildFieldMap s) = map_of (replay (survivors (rev (nodes s))))"
    unfolding buildFieldMap_def using map_of_replay_survivors[OF ord] by simp
  then have eq: "set (buildFieldMap s) = set (replay (survivors (rev (nodes s))))"
    using map_of_inject_set[OF d1 d2] by simp
  have pos: "buildFieldMap s =
           map (\<lambda>m. (nodeKey m, fieldEntry (the (lastOn (nodeKey m) (rev (nodes s))))))
               (inserters (rev (nodes s)))"
    unfolding buildFieldMap_def by (rule replay_inserters[OF ord])
  from eq d1 d2 pos show ?thesis by blast
qed

theorem fieldMap_entries_and_order_witness:
  "list_all (\<lambda>n. \<not> startsWith (s_field n) ''...'') (nodes ex_omitted)
   \<and> set (buildFieldMap ex_omitted) = set (replay (survivors (rev (nodes ex_omitted))))
   \<and> map nodeKey (rev (nodes ex_omitted)) = [''id'', ''title'', ''content'', ''id'']
   \<and> map s_negative (rev (nodes ex_omitted)) = [False, False, False, True]
   \<and> map fst (buildFieldMap ex_omitted) = [''title'', ''content'']
   \<and> list_all (\<lambda>n. \<not> startsWith (s_field n) ''...'') (nodes (addField ex_omitted ''id'' None None None))
   \<and> map fst (buildFieldMap (addField ex_omitted ''id'' None None None)) = [''title'', ''content'', ''id'']
   \<and> list_all (\<lambda>n. \<not> startsWith (s_field n) ''...'') (nodes ex_readd)
   \<and> map fst (buildFieldMap ex_readd) = [''title'', ''content'']"
proof -
  have h1: "list_all (\<lambda>n. \<not> startsWith (s_field n) ''...'') (nodes ex_omitted)"
    and h2: "list_all (\<lambda>n. \<not> startsWith (s_field n) ''...'') (nodes (addField ex_omitted ''id'' None None None))"
    and h3: "list_all (\<lambda>n. \<not> startsWith (s_field n) ''...'') (nodes ex_readd)"
    by code_simp+
  have i1: "map nodeKey (inserters (rev (nodes ex_omitted))) = [''title'', ''content'']"
    and i2: "map nodeKey (inserters (rev (nodes (addField ex_omitted ''id'' None None None))))
             = [''title'', ''content'', ''id'']"
    and i3: "map nodeKey (inserters (rev (nodes ex_readd))) = [''title'', ''content'']"
    by code_simp+
  have c: "map nodeKey (rev (nodes ex_omitted)) = [''id'', ''title'', ''content'', ''id'']"
    "map s_negative (rev (nodes ex_omitted)) = [False, False, False, True]"
    by code_simp+
  from fieldMap_entries_and_order[OF h1]
  have a1: "set (buildFieldMap ex_omitted) = set (replay (survivors (rev (nodes ex_omitted))))"
    and b1: "buildFieldMap ex_omitted =
           map (\<lambda>m. (nodeKey m, fieldEntry (the (lastOn (nodeKey m) (rev (nodes ex_omitted))))))
               (inserters (rev (nodes ex_omitted)))"
    by blast+
  from fieldMap_entries_and_order[OF h2]
  have b2: "buildFieldMap (addField ex_omitted ''id'' None None None) =
           map (\<lambda>m. (nodeKey m, fieldEntry (the (lastOn (nodeKey m)
                         (rev (nodes (addField ex_omitted ''id'' None None None)))))))
               (inserters (rev (nodes (addField ex_omitted ''id'' None None None))))"
    by blast
  from fieldMap_entries_and_order[OF h3]
  have b3: "buildFieldMap ex_readd =
           map (\<lambda>m. (nodeKey m, fieldEntry (the (lastOn (nodeKey m) (rev (nodes ex_readd))))))
               (inserters (rev (nodes ex_readd)))"
    by blast
  have k1: "map fst (buildFieldMap ex_omitted) = [''title'', ''content'']"
    unfolding b1 keys_of_entries by (rule i1)
  have k2: "map fst (buildFieldMap (addField ex_omitted ''id'' None None None))
            = [''title'', ''content'', ''id'']"
    unfolding b2 keys_of_entries by (rule i2)
  have k3: "map fst (buildFieldMap ex_readd) = [''title'', ''content'']"
    unfolding b3 keys_of_entries by (rule i3)
  from h1 h2 h3 a1 c k1 k2 k3 show ?thesis by simp
qed

text \<open>
  C1 as stated fails on the order: after \<open>title\<close>, \<open>content\<close>, \<open>title\<close> the table keeps
  \<open>title\<close> first, where the first add put it, while the replay of the survivors (the add
  of \<open>content\<close>, then the second add of \<open>title\<close>) puts \<open>content\<close> first.
\<close>

theorem fieldMap_survivors_order_counterexample:
  "map fst (buildFieldMap ex_readd) = [''title'', ''content'']
   \<and> map fst (replay (survivors (rev (nodes ex_readd)))) = [''content'', ''title'']
   \<and> buildFieldMap ex_readd \<noteq> replay (survivors (rev (nodes ex_readd)))"
proof -
  have a: "map fst (buildFieldMap ex_readd) = [''title'', ''content'']"
    by code_simp
  have b: "map fst (replay (survivors (rev (nodes ex_readd)))) = [''content'', ''title'']"
    by code_simp
  from a b show ?thesis by auto
qed

subsection \<open>Merging inherited fields\<close>

lemma map_of_foldl_map_set:
  "map_of (foldl (\<lambda>acc (k, v). map_set k v acc) acc kvs) = map_of acc ++ map_of (rev kvs)"
proof (induction kvs arbitrary: acc)
  case Nil
  then show ?case by simp
next
  case (Cons kv kvs)
  obtain k v where kv: "kv = (k, v)" by (cases kv)
  have "map_of (map_set k v acc) ++ map_of (rev kvs) =
        map_of acc ++ (map_of [(k, v)] ++ map_of (rev kvs))"
    by (simp add: map_set_def update_conv' map_add_upd_left fun_eq_iff map_add_def
        split: option.splits)
  with Cons show ?case by (simp add: kv)
qed

lemma distinct_foldl_map_set:
  "distinct (map fst acc) \<Longrightarrow>
   distinct (map fst (foldl (\<lambda>acc (k, v). map_set k v acc) acc kvs))"
  by (induction kvs arbitrary: acc) (auto simp: map_set_def distinct_update)

lemma remdups_drop_covered:
  "k \<in> set ys \<Longrightarrow> remdups (xs @ k # ys) = remdups (xs @ ys)"
  by (induction xs) auto

lemma keys_foldl_map_set:
  "distinct (map fst acc) \<Longrightarrow>
   map fst (foldl (\<lambda>acc (k, v). map_set k v acc) acc kvs) =
     rev (remdups (rev (map fst acc @ map fst kvs)))"
proof (induction kvs arbitrary: acc)
  case Nil
  then show ?case by (simp add: distinct_remdups_id)
next
  case (Cons kv kvs)
  obtain k v where kv: "kv = (k, v)" by (cases kv)
  have d: "distinct (map fst (map_set k v acc))"
    using Cons.prems by (simp add: map_set_def distinct_update)
  show ?case
  proof (cases "k \<in> set (map fst acc)")
    case True
    then have "remdups (rev (map fst kvs) @ k # rev (map fst acc)) =
               remdups (rev (map fst kvs) @ rev (map fst acc))"
      by (intro remdups_drop_covered) simp
    with True Cons.IH[OF d] show ?thesis
      by (simp add: kv map_set_def update_keys)
  next
    case False
    with Cons.IH[OF d] show ?thesis
      by (simp add: kv map_set_def update_keys)
  qed
qed

lemma collect_decls:
  "collect t out = foldl (\<lambda>acc (k, v). map_set k v acc) out (decls t)"
  "collectSupers ts out = foldl (\<lambda>acc (k, v). map_set k v acc) out (declsSupers ts)"
  by (induction t out and ts out rule: collect_collectSupers.induct) simp_all

text \<open>
  C2 (as the code has it). For a type created by \<open>createSchemaType\<close> with a non-empty
  supertype list, the first read of \<open>fields\<close> computes the depth-first union of the own
  and all transitively inherited declarations: every declared name is a key exactly once,
  in the order of its first visit. Where a name is declared at more than one level, the
  declaration visited last wins: an inherited declaration overrides the type's own. The
  table is stored on that first read, and a second read returns the stored table and
  changes nothing.
\<close>

theorem merged_fields_last_visited_wins:
  assumes "createSchemaType reg name category superTypes declaredFields = Inr (obj, reg')"
    and "superTypes \<noteq> []"
  shows "fst (get_fields obj) = collectFields (the_type obj)
       \<and> map fst (collectFields (the_type obj)) = rev (remdups (rev (map fst (decls (the_type obj)))))
       \<and> map_of (collectFields (the_type obj)) = map_of (rev (decls (the_type obj)))
       \<and> fields_cache (snd (get_fields obj)) = Some (collectFields (the_type obj))
       \<and> get_fields (snd (get_fields obj)) = (fst (get_fields obj), snd (get_fields obj))"
proof -
  from assms(1) have ty: "the_type obj = SchemaType name category superTypes (declareFields declaredFields [])"
    and cache: "fields_cache obj = None"
    by (auto simp: createSchemaType_def Let_def split: sum.splits)
  from ty assms(2) have f: "fields_of (the_type obj) = collectFields (the_type obj)"
    by (simp add: fields_of_def)
  have g: "get_fields obj = (collectFields (the_type obj), obj\<lparr> fields_cache := Some (collectFields (the_type obj)) \<rparr>)"
    by (simp add: get_fields_def cache f Let_def)
  have k: "map fst (collectFields (the_type obj)) = rev (remdups (rev (map fst (decls (the_type obj)))))"
    unfolding collectFields_def collect_decls(1)
    using keys_foldl_map_set[of "[]" "decls (the_type obj)"] by simp
  have m: "map_of (collectFields (the_type obj)) = map_of (rev (decls (the_type obj)))"
    unfolding collectFields_def collect_decls(1) by (simp add: map_of_foldl_map_set)
  have again: "get_fields (snd (get_fields obj)) = (fst (get_fields obj), snd (get_fields obj))"
    unfolding g by (simp add: get_fields_def)
  from g k m again show ?thesis by simp
qed

theorem merged_fields_last_visited_wins_witness:
  "(case createSchemaType [] ''Sub'' OBJECT [ex_Node] [ex_titleWithArg, DescString ''body''] of
      Inl e \<Rightarrow> False
    | Inr (obj, reg') \<Rightarrow>
        map fst (fst (get_fields obj)) = [''title'', ''body'', ''id'']
        \<and> map_of (fst (get_fields obj)) = map_of (rev (decls (the_type obj)))
        \<and> get_fields (snd (get_fields obj)) = (fst (get_fields obj), snd (get_fields obj)))"
proof -
  obtain obj reg' where c:
    "createSchemaType [] ''Sub'' OBJECT [ex_Node] [ex_titleWithArg, DescString ''body''] = Inr (obj, reg')"
    by (simp add: createSchemaType_def validateType_def Let_def)
  have ne: "[ex_Node] \<noteq> []" by simp
  have ty: "the_type obj = SchemaType ''Sub'' OBJECT [ex_Node]
              (declareFields [ex_titleWithArg, DescString ''body''] [])"
    using c by (auto simp: createSchemaType_def validateType_def Let_def)
  have keys: "rev (remdups (rev (map fst (decls (the_type obj))))) = [''title'', ''body'', ''id'']"
    unfolding ty by code_simp
  from merged_fields_last_visited_wins[OF c ne] keys show ?thesis
    by (simp add: c)
qed

text \<open>
  C2 as stated fails on which declaration wins: \<open>Sub\<close> declares \<open>title\<close> with an
  argument and inherits a plain \<open>title\<close> from \<open>Node\<close>; the merged table holds the
  declaration of \<open>Node\<close>, not the more specific one of \<open>Sub\<close> itself.
\<close>

theorem merged_fields_most_specific_counterexample:
  "(case createSchemaType [] ''Sub'' OBJECT [ex_Node] [ex_titleWithArg, DescString ''body''] of
      Inl e \<Rightarrow> False
    | Inr (obj, reg') \<Rightarrow>
        map_get (fst (get_fields obj)) ''title'' = map_get (ownFields ex_Node) ''title''
        \<and> map_get (fst (get_fields obj)) ''title'' \<noteq> map_get (ownFields (the_type obj)) ''title''
        \<and> map_option argGraphQLTypeMap (map_get (ownFields (the_type obj)) ''title'')
            = Some [(''upper'', ''Boolean'')]
        \<and> map_option argGraphQLTypeMap (map_get (fst (get_fields obj)) ''title'') = Some [])"
  by code_simp

subsection \<open>Removing fields\<close>

lemma buildFieldMap_step:
  assumes "s_ctx n = Prev s" "s_field n \<noteq> []"
  shows "buildFieldMap n = replayNode (buildFieldMap s) n"
  using assms by (cases n) (simp add: buildFieldMap_def replay_def)

lemma removeField_ok:
  "fld \<noteq> ''__typename'' \<Longrightarrow>
   removeField s fld = Inr (SelectionImpl (Prev s) True fld None None None None None)"
  by (simp add: removeField_def)

lemma map_get_after_remove:
  assumes "fld \<noteq> []" "\<not> startsWith fld ''...''"
  shows "map_get (buildFieldMap (SelectionImpl (Prev s) True fld None None None None None)) fld = None"
proof -
  let ?n = "SelectionImpl (Prev s) True fld None None None None None"
  have "buildFieldMap ?n = replayNode (buildFieldMap s) ?n"
    using assms(1) by (intro buildFieldMap_step) simp_all
  moreover have "nodeKey ?n = fld" by (simp add: nodeKey_def)
  ultimately show ?thesis
    using assms(2) by (simp add: map_get_def map_of_replayNode)
qed

lemma dollar_omit_fails_iff:
  "(\<exists>e. dollar_omit s names = Inl e) \<longleftrightarrow> JString ''__typename'' \<in> set names"
proof (induction s names rule: dollar_omit.induct)
  case (1 current)
  then show ?case by simp
next
  case (2 current fieldName rest)
  show ?case
  proof (cases "fieldName = ''__typename''")
    case True
    then show ?thesis by (simp add: removeField_def)
  next
    case False
    with 2[OF removeField_ok[OF False]] show ?thesis
      by (simp add: removeField_ok)
  qed
qed simp_all

lemma dollar_omit_error:
  "dollar_omit s names = Inl e \<Longrightarrow> e = Error ''__typename cannot be removed''"
proof (induction s names rule: dollar_omit.induct)
  case (2 current fieldName rest)
  show ?case
  proof (cases "fieldName = ''__typename''")
    case True
    with 2(2) show ?thesis by (simp add: removeField_def)
  next
    case False
    with 2(1)[OF removeField_ok[OF False]] 2(2) show ?thesis by (simp add: removeField_ok)
  qed
qed simp_all

text \<open>
  C4. The field that must never be removed is the reserved type discriminator
  \<open>__typename\<close>: it is the one name the guard of \<open>removeField\<close> tests. On every node of
  every type the removal of \<open>__typename\<close> fails with the usage error, through \<open>removeField\<close>
  and through \<open>$omit\<close> whenever \<open>__typename\<close> is among the names; the failed call returns no
  node, and on the heap it allocates nothing, so the receiver is as it was. The guard
  tests nothing else: a removal fails only for that name.
\<close>

theorem typename_removal_always_fails:
  "removeField s ''__typename'' = Inl (Error ''__typename cannot be removed'')
   \<and> (JString ''__typename'' \<in> set names \<longrightarrow>
        dollar_omit s names = Inl (Error ''__typename cannot be removed''))
   \<and> removeField_h r ''__typename'' h = Inl (Error ''__typename cannot be removed'')
   \<and> (\<exists>e. exec (RemoveField r ''__typename'') h = Inl e)
   \<and> ((\<exists>e. removeField s fld = Inl e) \<longleftrightarrow> fld = ''__typename'')
   \<and> ((\<exists>e. dollar_omit s names = Inl e) \<longleftrightarrow> JString ''__typename'' \<in> set names)"
proof -
  have a: "removeField s ''__typename'' = Inl (Error ''__typename cannot be removed'')"
    by (simp add: removeField_def)
  have c: "(\<exists>e. dollar_omit s names = Inl e) \<longleftrightarrow> JString ''__typename'' \<in> set names"
    by (rule dollar_omit_fails_iff)
  have b: "JString ''__typename'' \<in> set names \<longrightarrow>
        dollar_omit s names = Inl (Error ''__typename cannot be removed'')"
    using c dollar_omit_error by blast
  have d: "removeField_h r ''__typename'' h = Inl (Error ''__typename cannot be removed'')"
    by (simp add: removeField_h_def)
  have e: "\<exists>e. exec (RemoveField r ''__typename'') h = Inl e"
    by (simp add: on_receiver_def d)
  have f: "(\<exists>e. removeField s fld = Inl e) \<longleftrightarrow> fld = ''__typename''"
    by (simp add: removeField_def)
  from a b c d e f show ?thesis by blast
qed

theorem typename_removal_always_fails_witness:
  "JString ''__typename'' \<in> set [JString ''title'', JString ''__typename'']
   \<and> removeField (addField ex_root ''id'' None None None) ''__typename''
       = Inl (Error ''__typename cannot be removed'')
   \<and> dollar_omit (addField ex_root ''id'' None None None) [JString ''title'', JString ''__typename'']
       = Inl (Error ''__typename cannot be removed'')
   \<and> exec (RemoveField 1 ''__typename'') ex_baseHeap = Inl (Error ''__typename cannot be removed'')"
proof -
  have m: "JString ''__typename'' \<in> set [JString ''title'', JString ''__typename'']" by simp
  have x: "exec (RemoveField 1 ''__typename'') ex_baseHeap = Inl (Error ''__typename cannot be removed'')"
    by code_simp
  from typename_removal_always_fails
         [of "addField ex_root ''id'' None None None" "[JString ''title'', JString ''__typename'']"]
       m x
  show ?thesis by blast
qed

text \<open>
  The guard does not look at the schema. \<open>Post\<close> declares \<open>id\<close> with the identifier
  category, and on a selection of \<open>Post\<close> that holds \<open>id\<close> both \<open>removeField\<close> and \<open>$omit\<close>
  return a node, whose field map is empty.
\<close>

lemma identifier_category_field_removable:
  "map_option sf_category (map_get (fields_of ex_Post) ''id'') = Some F_ID
   \<and> schemaType_of (addField ex_root ''id'' None None None) = ex_Post
   \<and> (case removeField (addField ex_root ''id'' None None None) ''id'' of
         Inl e \<Rightarrow> False | Inr n \<Rightarrow> buildFieldMap n = [])
   \<and> (case dollar_omit (addField ex_root ''id'' None None None) [JString ''id''] of
         Inl e \<Rightarrow> False | Inr n \<Rightarrow> buildFieldMap n = [])"
  by code_simp

subsection \<open>The field a built-in binds to\<close>

lemma buildFieldMap_readd:
  assumes "fld \<noteq> []" "\<not> startsWith fld ''...''"
  shows "map_get (buildFieldMap (addField s fld a c opts)) (nodeKey (addField s fld a c opts))
         = Some (fieldEntry (addField s fld a c opts))"
proof -
  let ?n = "addField s fld a c opts"
  have ns: "\<not> startsWith (s_field ?n) ''...''" and nn: "\<not> s_negative ?n"
    using assms(2) by (simp_all add: addField_def)
  have "map_of (buildFieldMap ?n) = (map_of (buildFieldMap s))(nodeKey ?n \<mapsto> fieldEntry ?n)"
    unfolding buildFieldMap_addField[OF assms(1)] map_of_replayNode[OF ns] using nn by simp
  then show ?thesis by (simp add: map_get_def)
qed



subsection \<open>Unfolding the serializer\<close>

lemma acceptSelection_Some:
  "acceptSelection (Some s) ctx = foldE (acceptField s) (map snd (buildFieldMap s)) ctx"
  unfolding acceptField_def by (subst acceptSelection.simps) simp

lemma acceptSelection_None: "acceptSelection None ctx = Inl TypeError"
  by (subst acceptSelection.simps) simp

lemma writeRemaining_Nil: "writeRemaining tb [] = tb"
  by (subst writeRemaining.simps) simp

lemma writeRemaining_plain:
  "s \<noteq> [] \<Longrightarrow> CHR 0x0A \<notin> set s \<Longrightarrow>
   writeRemaining tb s = (flushIndent tb)\<lparr> result := result (flushIndent tb) @ s \<rparr>"
  by (subst writeRemaining.simps) (simp add: Let_def)

lemma writeRemaining_newline:
  "writeRemaining tb [CHR 0x0A] = lineBreak (flushIndent tb)"
  by (subst writeRemaining.simps) (simp add: Let_def writeRemaining_Nil lineBreak_def)

lemma drain_empty: "namedFragmentMap ctx = [] \<Longrightarrow> drain ctx fw r = Inr (ctx, fw)"
  by (subst drain.simps) (simp add: Let_def)

subsection \<open>An alias right after a field\<close>

lemma singleton_list:
  assumes "distinct xs" "set xs = {a}"
  shows "xs = [a]"
proof (cases xs)
  case Nil
  with assms(2) show ?thesis by simp
next
  case (Cons x rest)
  with assms have x: "x = a" and r: "set rest \<subseteq> {a}" "a \<notin> set rest" by auto
  from r have "rest = []" by (cases rest) auto
  with Cons x show ?thesis by simp
qed

lemma acceptDirectives_empty: "acceptDirectives (Some []) ctx = Inr ctx"
  by (simp add: acceptDirectives_def)

text \<open>
  C7 (as the code has it). On any receiver whose type declares \<open>title\<close> as a plain scalar,
  selecting \<open>title\<close> and then calling \<open>$alias("x")\<close> yields the field map of the receiver
  with the key \<open>title\<close> deleted and the key \<open>x\<close> set to an entry still named \<open>title\<close>. It is
  the only entry named \<open>title\<close> when the receiver holds none under another key; an entry
  the receiver holds for \<open>title\<close> under another alias stays. The entry is written as
  \<open>x: title\<close> and a line break; on a fresh selection the field map is that one entry and
  the serialized body is the block with the one line \<open>x: title\<close>.
\<close>

theorem alias_after_title:
  assumes "map_get (fields_of (schemaType_of rcv)) ''title'' = Some fld"
    and "\<not> isAssociation fld" and "targetTypeName fld = None" and "\<not> isFunction fld"
    and "e = \<lparr> fs_name = ''title'', argGraphQLTypes = Some (argGraphQLTypeMap fld), fs_args = None,
                fs_fieldOptionsValue = Some \<lparr> fo_alias = Some ''x'', fo_directives = [] \<rparr>,
                plural = isPlural fld, childSelections = None \<rparr>"
  shows "\<exists>s1 s2. proxy_get rcv ''title'' = NewSelection s1
       \<and> dollar_alias s1 ''x'' = Inr s2
       \<and> buildFieldMap s2 = map_set ''x'' e (map_delete ''title'' (buildFieldMap rcv))
       \<and> map_get (buildFieldMap s2) ''x'' = Some e
       \<and> map_get (buildFieldMap s2) ''title'' = None
       \<and> ((\<forall>kf\<in>set (buildFieldMap rcv). fs_name (snd kf) = ''title'' \<longrightarrow> fst kf = ''title'' \<or> fst kf = ''x'')
            \<longrightarrow> filter (\<lambda>kf. fs_name (snd kf) = ''title'') (buildFieldMap s2) = [(''x'', e)])
       \<and> (\<forall>ctx. acceptField s2 e ctx = Inr (emit [CHR 0x0A] (emit ''title'' (emit ''x: '' ctx))))
       \<and> (rcv = createSelection (schemaType_of rcv) meta u \<longrightarrow>
            buildFieldMap s2 = [(''x'', e)]
            \<and> serialize s2 =
                Inr \<lparr> sr_text = ''{'' @ [CHR 0x0A, CHR 0x09] @ ''x: title'' @ [CHR 0x0A] @ ''}'' @ [CHR 0x0A],
                      fragmentText = [], sr_variableTypeMap = [] \<rparr>)"
proof -
  let ?s1 = "addField rcv ''title'' None None None"
  let ?r = "SelectionImpl (Prev ?s1) True ''title'' None None None None None"
  let ?s2 = "addField ?r ''title'' None None (Some \<lparr> fo_alias = Some ''x'', fo_directives = [] \<rparr>)"
  let ?M = "buildFieldMap rcv"
  have p: "proxy_get rcv ''title'' = NewSelection ?s1"
    using assms(1-4) by (simp add: proxy_get_def Let_def)
  have a: "dollar_alias ?s1 ''x'' = Inr ?s2"
    by (simp add: dollar_alias_def Let_def lastField_def addField_def removeField_def)
  have T: "schemaType_of ?s2 = schemaType_of rcv" by (simp add: addField_def)
  have fe: "fieldEntry ?s2 = e"
    using assms(1) unfolding assms(5) fieldEntry_def T by (simp add: addField_def)
  have m1: "buildFieldMap ?s1 = map_set ''title'' (fieldEntry ?s1) ?M"
    unfolding buildFieldMap_addField[of "''title''", simplified]
    by (simp add: replayNode_def Let_def addField_def nodeKey_def startsWith_def)
  have m2: "buildFieldMap ?r = map_delete ''title'' (buildFieldMap ?s1)"
    by (subst buildFieldMap_step[of ?r ?s1])
       (simp_all add: replayNode_def Let_def nodeKey_def startsWith_def)
  have m3: "buildFieldMap ?s2 = map_set ''x'' e (buildFieldMap ?r)"
    unfolding buildFieldMap_addField[of "''title''", simplified] fe[symmetric]
    by (simp add: replayNode_def Let_def addField_def nodeKey_def startsWith_def)
  have m: "buildFieldMap ?s2 = map_set ''x'' e (map_delete ''title'' ?M)"
    unfolding m3 m2 m1 by (simp add: map_set_def map_delete_def delete_update_same)
  have d: "distinct (map fst (buildFieldMap ?s2))"
    by (simp add: buildFieldMap_def distinct_replay)
  have mo: "map_of (buildFieldMap ?s2) = ((map_of ?M)(''title'' := None))(''x'' \<mapsto> e)"
    unfolding m by (simp add: map_set_def map_delete_def update_conv' delete_conv')
  have gx: "map_get (buildFieldMap ?s2) ''x'' = Some e" by (simp add: map_get_def mo)
  have gt: "map_get (buildFieldMap ?s2) ''title'' = None" by (simp add: map_get_def mo)
  have only: "filter (\<lambda>kf. fs_name (snd kf) = ''title'') (buildFieldMap ?s2) = [(''x'', e)]"
    if side: "\<forall>kf\<in>set ?M. fs_name (snd kf) = ''title'' \<longrightarrow> fst kf = ''title'' \<or> fst kf = ''x''"
  proof (rule singleton_list)
    show "distinct (filter (\<lambda>kf. fs_name (snd kf) = ''title'') (buildFieldMap ?s2))"
      using d by (simp add: distinct_map_filter distinct_map[THEN iffD1, THEN conjunct1])
  next
    have dM: "distinct (map fst ?M)" by (simp add: buildFieldMap_def distinct_replay)
    have mem: "\<And>k f. (k, f) \<in> set (buildFieldMap ?s2) \<longleftrightarrow>
                 (k = ''x'' \<and> f = e) \<or> (k \<noteq> ''x'' \<and> k \<noteq> ''title'' \<and> (k, f) \<in> set ?M)"
    proof -
      fix k f
      have "(k, f) \<in> set (buildFieldMap ?s2) \<longleftrightarrow> map_of (buildFieldMap ?s2) k = Some f"
        by (rule map_of_eq_Some_iff[OF d, symmetric])
      also have "\<dots> \<longleftrightarrow> (k = ''x'' \<and> f = e) \<or> (k \<noteq> ''x'' \<and> k \<noteq> ''title'' \<and> map_of ?M k = Some f)"
        unfolding mo by auto
      also have "\<dots> \<longleftrightarrow> (k = ''x'' \<and> f = e) \<or> (k \<noteq> ''x'' \<and> k \<noteq> ''title'' \<and> (k, f) \<in> set ?M)"
        unfolding map_of_eq_Some_iff[OF dM] ..
      finally show "(k, f) \<in> set (buildFieldMap ?s2) \<longleftrightarrow>
                 (k = ''x'' \<and> f = e) \<or> (k \<noteq> ''x'' \<and> k \<noteq> ''title'' \<and> (k, f) \<in> set ?M)" .
    qed
    have en: "fs_name e = ''title''" by (simp add: assms(5))
    show "set (filter (\<lambda>kf. fs_name (snd kf) = ''title'') (buildFieldMap ?s2)) = {(''x'', e)}"
    proof (intro equalityI subsetI)
      fix kf assume "kf \<in> set (filter (\<lambda>kf. fs_name (snd kf) = ''title'') (buildFieldMap ?s2))"
      then have i: "(fst kf, snd kf) \<in> set (buildFieldMap ?s2)" and n: "fs_name (snd kf) = ''title''"
        by simp_all
      from i[unfolded mem] n side have "fst kf = ''x'' \<and> snd kf = e" by force
      then show "kf \<in> {(''x'', e)}" by (cases kf) simp
    next
      fix kf assume "kf \<in> {(''x'', e)}"
      then have "kf = (''x'', e)" by simp
      then show "kf \<in> set (filter (\<lambda>kf. fs_name (snd kf) = ''title'') (buildFieldMap ?s2))"
        using mem[of "''x''" e] en by simp
    qed
  qed
  have w: "acceptField ?s2 e ctx = Inr (emit [CHR 0x0A] (emit ''title'' (emit ''x: '' ctx)))" for ctx
    unfolding assms(5)
    by (simp add: acceptField_def acceptFieldHead_def acceptArgs_def acceptDirectives_empty Let_def)
  have fresh: "buildFieldMap ?s2 = [(''x'', e)]
            \<and> serialize ?s2 =
                Inr \<lparr> sr_text = ''{'' @ [CHR 0x0A, CHR 0x09] @ ''x: title'' @ [CHR 0x0A] @ ''}'' @ [CHR 0x0A],
                      fragmentText = [], sr_variableTypeMap = [] \<rparr>"
    if root: "rcv = createSelection (schemaType_of rcv) meta u"
  proof -
    have M0: "?M = []"
      by (subst root) (simp add: buildFieldMap_def replay_def createSelection_def)
    have fm: "buildFieldMap ?s2 = [(''x'', e)]"
      unfolding m M0 by (simp add: map_set_def map_delete_def)
    have dm: "buildDirectiveMap ?s2 = []"
      by (subst root) (simp add: buildDirectiveMap_def addField_def createSelection_def)
    have "serialize ?s2 =
           Inr \<lparr> sr_text = ''{'' @ [CHR 0x0A, CHR 0x09] @ ''x: title'' @ [CHR 0x0A] @ ''}'' @ [CHR 0x0A],
                 fragmentText = [], sr_variableTypeMap = [] \<rparr>"
      unfolding serialize_def Let_def dm acceptSelection_Some fm
      by (simp add: w acceptDirectives_def new_SerializeContext_def new_TextBuilder_def
          emit_def blockScope_def scope_enter_def scope_leave_def
          writeText_def SCOPE_BRACKETS_def Let_def flushIndent_def lineBreak_def
          writeRemaining_plain writeRemaining_newline drain_empty)
    with fm show ?thesis by simp
  qed
  from p a m gx gt only w fresh show ?thesis by blast
qed

theorem alias_after_title_witness:
  "map_option isFunction (map_get (fields_of ex_Post) ''title'') = Some False
   \<and> (\<exists>s1 s2. proxy_get (createSelection ex_Post [] None) ''title'' = NewSelection s1
        \<and> dollar_alias s1 ''x'' = Inr s2
        \<and> map fst (buildFieldMap s2) = [''x'']
        \<and> map (fs_name \<circ> snd) (buildFieldMap s2) = [''title'']
        \<and> map_option sr_text (case serialize s2 of Inl e \<Rightarrow> None | Inr r \<Rightarrow> Some r)
            = Some (''{'' @ [CHR 0x0A, CHR 0x09] @ ''x: title'' @ [CHR 0x0A] @ ''}'' @ [CHR 0x0A]))"
proof -
  let ?rcv = "createSelection ex_Post [] None"
  have T: "schemaType_of ?rcv = ex_Post" by (simp add: createSelection_def)
  obtain fld where f: "map_get (fields_of (schemaType_of ?rcv)) ''title'' = Some fld"
    "\<not> isAssociation fld" "targetTypeName fld = None" "\<not> isFunction fld"
    unfolding T by (simp add: ex_Post_def fields_of_def map_get_def map_set_def buildField_def)
  define e where "e = \<lparr> fs_name = ''title'', argGraphQLTypes = Some (argGraphQLTypeMap fld), fs_args = None,
                fs_fieldOptionsValue = Some \<lparr> fo_alias = Some ''x'', fo_directives = [] \<rparr>,
                plural = isPlural fld, childSelections = None \<rparr>"
  have r: "?rcv = createSelection (schemaType_of ?rcv) [] None" unfolding T ..
  from alias_after_title[OF f e_def, of "[]" None] r obtain s1 s2 where
    "proxy_get ?rcv ''title'' = NewSelection s1"
    "dollar_alias s1 ''x'' = Inr s2"
    "buildFieldMap s2 = [(''x'', e)]"
    "serialize s2 =
           Inr \<lparr> sr_text = ''{'' @ [CHR 0x0A, CHR 0x09] @ ''x: title'' @ [CHR 0x0A] @ ''}'' @ [CHR 0x0A],
                 fragmentText = [], sr_variableTypeMap = [] \<rparr>"
    by blast
  then have "\<exists>s1 s2. proxy_get ?rcv ''title'' = NewSelection s1
        \<and> dollar_alias s1 ''x'' = Inr s2
        \<and> map fst (buildFieldMap s2) = [''x'']
        \<and> map (fs_name \<circ> snd) (buildFieldMap s2) = [''title'']
        \<and> map_option sr_text (case serialize s2 of Inl e \<Rightarrow> None | Inr r \<Rightarrow> Some r)
            = Some (''{'' @ [CHR 0x0A, CHR 0x09] @ ''x: title'' @ [CHR 0x0A] @ ''}'' @ [CHR 0x0A])"
    by (intro exI[of _ s1] exI[of _ s2]) (simp add: e_def)
  moreover have "map_option isFunction (map_get (fields_of ex_Post) ''title'') = Some False"
    using f unfolding T by simp
  ultimately show ?thesis by blast
qed

text \<open>
  C7 as stated fails on an arbitrary receiver: \<open>root.title.$alias("y").title.$alias("x")\<close>
  has a second entry for \<open>title\<close>, the one the receiver holds under the alias \<open>y\<close>, and
  the body has the two lines \<open>y: title\<close> and \<open>x: title\<close>.
\<close>

theorem alias_second_entry_counterexample:
  "(case dollar_alias (addField ex_root ''title'' None None None) ''y'' of
      Inl e \<Rightarrow> False
    | Inr rcv \<Rightarrow>
        (case proxy_get rcv ''title'' of
           NewSelection s1 \<Rightarrow>
             (case dollar_alias s1 ''x'' of
                Inl e \<Rightarrow> False
              | Inr s2 \<Rightarrow>
                  map (\<lambda>kf. (fst kf, fs_name (snd kf))) (buildFieldMap s2)
                    = [(''y'', ''title''), (''x'', ''title'')]
                  \<and> map_option sr_text (case serialize s2 of Inl e \<Rightarrow> None | Inr r \<Rightarrow> Some r)
                      = Some (''{'' @ [CHR 0x0A, CHR 0x09] @ ''y: title'' @ [CHR 0x0A, CHR 0x09]
                              @ ''x: title'' @ [CHR 0x0A] @ ''}'' @ [CHR 0x0A]))
         | _ \<Rightarrow> False))"
  by code_simp

subsection \<open>Writing arguments\<close>

lemma foldE_total:
  assumes "P s" and "\<And>x u. x \<in> set xs \<Longrightarrow> P u \<Longrightarrow> \<exists>u'. f x u = Inr u' \<and> P u'"
  shows "\<exists>s'. foldE f xs s = Inr s' \<and> P s'"
  using assms
proof (induction xs arbitrary: s)
  case Nil
  then show ?case by simp
next
  case (Cons x xs)
  from Cons.prems(2)[of x s] Cons.prems(1) obtain u where u: "f x s = Inr u" "P u" by auto
  have "\<exists>s'. foldE f xs u = Inr s' \<and> P s'"
  proof (rule Cons.IH[OF u(2)])
    fix y v
    assume "y \<in> set xs" "P v"
    then show "\<exists>u'. f y v = Inr u' \<and> P u'" using Cons.prems(2)[of y v] by simp
  qed
  with u(1) show ?case by simp
qed

lemma foldE_fails:
  assumes "x \<in> set xs" and "\<And>u. \<exists>e. f x u = Inl e"
  shows "\<exists>e. foldE f xs s = Inl e"
  using assms(1)
proof (induction xs arbitrary: s)
  case Nil
  then show ?case by simp
next
  case (Cons y ys)
  show ?case
  proof (cases "f y s")
    case (Inl e)
    then show ?thesis by simp
  next
    case (Inr u)
    show ?thesis
    proof (cases "y = x")
      case True
      with assms(2)[of s] Inr show ?thesis by simp
    next
      case False
      with Cons.prems have "x \<in> set ys" by simp
      from Cons.IH[OF this, of u] Inr show ?thesis by simp
    qed
  qed
qed

lemma scopes_flushIndent [simp]: "scopes (flushIndent tb) = scopes tb"
  by (simp add: flushIndent_def)

lemma scopes_lineBreak [simp]: "scopes (lineBreak tb) = scopes tb"
  by (simp add: lineBreak_def)

lemma scopes_writeRemaining [simp]: "scopes (writeRemaining tb s) = scopes tb"
proof (induction tb s rule: writeRemaining.induct)
  case (1 tb remaining)
  show ?case
  proof (cases "remaining = []")
    case True
    then show ?thesis by (subst writeRemaining.simps) simp
  next
    case False
    show ?thesis
    proof (cases "CHR 0x0A \<in> set remaining")
      case True
      from "1.IH"[OF False refl True] False True show ?thesis
        by (subst writeRemaining.simps) (simp add: Let_def)
    next
      case nl: False
      with False show ?thesis
        by (subst writeRemaining.simps) (simp add: Let_def)
    qed
  qed
qed



lemma length_scopes_writeText [simp]: "length (scopes (writeText s tb)) = length (scopes tb)"
  by (cases "scopes tb") (simp_all add: writeText_def Let_def)



lemma length_scopes_enter [simp]: "length (scopes (scope_enter opts tb)) = Suc (length (scopes tb))"
  by (cases "so_prefix opts") (simp_all add: scope_enter_def Let_def)

lemma length_scopes_leave [simp]: "length (scopes (scope_leave opts tb)) = length (scopes tb) - 1"
  by (cases "so_suffix opts") (simp_all add: scope_leave_def Let_def)

lemma separator_ok:
  assumes "scopes tb \<noteq> []"
  shows "\<exists>w. separator v tb = Inr w \<and> length (scopes w) = length (scopes tb)"
  using assms by (auto simp: separator_def Let_def split: list.splits option.splits)

lemma acceptLiteral_ok:
  "\<exists>w'. acceptLiteral v mt w = Inr w' \<and> length (scopes w') = length (scopes w)"
proof (induction v mt w rule: acceptLiteral.induct)
  case (7 es metaType w)
  let ?P = "\<lambda>u. length (scopes u) = Suc (length (scopes w))"
  have "\<exists>s'. foldE (\<lambda>e w1. case separator (Some '', '') w1 of
                            Inl err \<Rightarrow> Inl err
                          | Inr w2 \<Rightarrow> acceptLiteral e metaType w2)
             es (scope_enter arrayScope w) = Inr s' \<and> ?P s'"
  proof (rule foldE_total[where P = ?P])
    show "?P (scope_enter arrayScope w)" by simp
  next
    fix x and u :: textBuilder
    assume x: "x \<in> set es" and u: "?P u"
    then have "scopes u \<noteq> []" by auto
    from separator_ok[OF this, of "Some '', ''"] obtain w2 where
      w2: "separator (Some '', '') u = Inr w2" "length (scopes w2) = length (scopes u)" by auto
    from "7.IH"[OF x w2(1)] obtain w' where
      "acceptLiteral x metaType w2 = Inr w'" "length (scopes w') = length (scopes w2)" by auto
    with w2 u show "\<exists>u'. (case separator (Some '', '') u of
                            Inl err \<Rightarrow> Inl err
                          | Inr w2 \<Rightarrow> acceptLiteral x metaType w2) = Inr u' \<and> ?P u'"
      by simp
  qed
  then show ?case by auto
next
  case (8 es metaType w)
  let ?P = "\<lambda>u. length (scopes u) = Suc (length (scopes w))"
  have "\<exists>s'. foldE (\<lambda>e w1. case separator (Some '', '') w1 of
                            Inl err \<Rightarrow> Inl err
                          | Inr w2 \<Rightarrow> acceptLiteral e metaType w2)
             es (scope_enter arrayScope w) = Inr s' \<and> ?P s'"
  proof (rule foldE_total[where P = ?P])
    show "?P (scope_enter arrayScope w)" by simp
  next
    fix x and u :: textBuilder
    assume x: "x \<in> set es" and u: "?P u"
    then have "scopes u \<noteq> []" by auto
    from separator_ok[OF this, of "Some '', ''"] obtain w2 where
      w2: "separator (Some '', '') u = Inr w2" "length (scopes w2) = length (scopes u)" by auto
    from "8.IH"[OF x w2(1)] obtain w' where
      "acceptLiteral x metaType w2 = Inr w'" "length (scopes w') = length (scopes w2)" by auto
    with w2 u show "\<exists>u'. (case separator (Some '', '') u of
                            Inl err \<Rightarrow> Inl err
                          | Inr w2 \<Rightarrow> acceptLiteral x metaType w2) = Inr u' \<and> ?P u'"
      by simp
  qed
  then show ?case by auto
next
  case (9 kvs metaType w)
  let ?P = "\<lambda>u. length (scopes u) = Suc (length (scopes w))"
  have "\<exists>s'. foldE (\<lambda>kv w1. case separator (Some '', '') w1 of
                             Inl err \<Rightarrow> Inl err
                           | Inr w2 \<Rightarrow>
                               acceptLiteral (snd kv) (metaField metaType (fst kv))
                                 (writeText '': '' (writeText (fst kv) w2)))
             kvs (scope_enter plainBlockScope w) = Inr s' \<and> ?P s'"
  proof (rule foldE_total[where P = ?P])
    show "?P (scope_enter plainBlockScope w)" by simp
  next
    fix x and u :: textBuilder
    assume x: "x \<in> set kvs" and u: "?P u"
    then have "scopes u \<noteq> []" by auto
    from separator_ok[OF this, of "Some '', ''"] obtain w2 where
      w2: "separator (Some '', '') u = Inr w2" "length (scopes w2) = length (scopes u)" by auto
    from "9.IH"[OF x w2(1)] obtain w' where
      "acceptLiteral (snd x) (metaField metaType (fst x)) (writeText '': '' (writeText (fst x) w2)) = Inr w'"
      "length (scopes w') = length (scopes (writeText '': '' (writeText (fst x) w2)))" by auto
    with w2 u show "\<exists>u'. (case separator (Some '', '') u of
                             Inl err \<Rightarrow> Inl err
                           | Inr w2 \<Rightarrow>
                               acceptLiteral (snd x) (metaField metaType (fst x))
                                 (writeText '': '' (writeText (fst x) w2))) = Inr u' \<and> ?P u'"
      by simp
  qed
  then show ?case by auto
next
  case (10 kvs metaType w)
  let ?P = "\<lambda>u. length (scopes u) = Suc (length (scopes w))"
  have "\<exists>s'. foldE (\<lambda>kv w1. case separator (Some '', '') w1 of
                             Inl err \<Rightarrow> Inl err
                           | Inr w2 \<Rightarrow>
                               acceptLiteral (snd kv) (metaField metaType (fst kv))
                                 (writeText '': '' (writeText (fst kv) w2)))
             kvs (scope_enter plainBlockScope w) = Inr s' \<and> ?P s'"
  proof (rule foldE_total[where P = ?P])
    show "?P (scope_enter plainBlockScope w)" by simp
  next
    fix x and u :: textBuilder
    assume x: "x \<in> set kvs" and u: "?P u"
    then have "scopes u \<noteq> []" by auto
    from separator_ok[OF this, of "Some '', ''"] obtain w2 where
      w2: "separator (Some '', '') u = Inr w2" "length (scopes w2) = length (scopes u)" by auto
    from "10.IH"[OF x w2(1)] obtain w' where
      "acceptLiteral (snd x) (metaField metaType (fst x)) (writeText '': '' (writeText (fst x) w2)) = Inr w'"
      "length (scopes w') = length (scopes (writeText '': '' (writeText (fst x) w2)))" by auto
    with w2 u show "\<exists>u'. (case separator (Some '', '') u of
                             Inl err \<Rightarrow> Inl err
                           | Inr w2 \<Rightarrow>
                               acceptLiteral (snd x) (metaField metaType (fst x))
                                 (writeText '': '' (writeText (fst x) w2))) = Inr u' \<and> ?P u'"
      by simp
  qed
  then show ?case by auto
next
  case (11 name graphqlTypeName metaType w)
  let ?P = "\<lambda>u. length (scopes u) = Suc (length (scopes w))"
  have "\<exists>s'. foldE (\<lambda>kv w1. case separator (Some '', '') w1 of
                             Inl err \<Rightarrow> Inl err
                           | Inr w2 \<Rightarrow>
                               Inr (writeText (scalarLiteral (snd kv))
                                      (writeText '': '' (writeText (fst kv) w2))))
             (enumerableProps (JParameterRef name graphqlTypeName)) (scope_enter plainBlockScope w)
           = Inr s' \<and> ?P s'"
  proof (rule foldE_total[where P = ?P])
    show "?P (scope_enter plainBlockScope w)" by simp
  next
    fix x :: "string \<times> jsval" and u :: textBuilder
    assume u: "?P u"
    then have "scopes u \<noteq> []" by auto
    from separator_ok[OF this, of "Some '', ''"] obtain w2 where
      w2: "separator (Some '', '') u = Inr w2" "length (scopes w2) = length (scopes u)" by auto
    with u show "\<exists>u'. (case separator (Some '', '') u of
                             Inl err \<Rightarrow> Inl err
                           | Inr w2 \<Rightarrow>
                               Inr (writeText (scalarLiteral (snd x))
                                      (writeText '': '' (writeText (fst x) w2)))) = Inr u' \<and> ?P u'"
      by simp
  qed
  then show ?case by auto
qed simp_all


lemma scanDeclared_none:
  "\<forall>k\<in>set keys. map_get tm k = None \<Longrightarrow>
   scanDeclared keys tm log = (False, log @ map (\<lambda>k. ''Unexpected argument: '' @ k) keys)"
  by (induction keys arbitrary: log) auto

lemma scanDeclared_some:
  "\<exists>k\<in>set keys. map_get tm k \<noteq> None \<Longrightarrow> \<exists>log'. scanDeclared keys tm log = (True, log')"
  by (induction keys arbitrary: log) auto

lemma acceptArg_undeclared:
  "map_get tm k = None \<Longrightarrow> \<exists>e. acceptArg (Some tm) meta (k, v) ctx = Inl e"
  by (cases "separator None (writer ctx)") (simp_all add: acceptArg_def Let_def)

lemma acceptArg_null_fails:
  "map_get tm k = Some ty \<Longrightarrow> \<exists>e. acceptArg (Some tm) meta (k, JNull) ctx = Inl e"
  by (cases "separator None (writer ctx)") (simp_all add: acceptArg_def Let_def)

lemma acceptArgs_declared:
  assumes "\<exists>k\<in>set (map fst args). map_get tm k \<noteq> None"
  shows "acceptArgs (Some args) (Some tm) meta ctx =
         (case isMultiLineJSON (JObject args) of
            Inl e \<Rightarrow> Inl e
          | Inr multi \<Rightarrow>
              (case foldE (acceptArg (Some tm) meta) args
                      (ctx\<lparr> console := snd (scanDeclared (map fst args) tm (console ctx)),
                            writer := scope_enter (argumentsScope multi) (writer ctx) \<rparr>) of
                 Inl e \<Rightarrow> Inl e
               | Inr ctx2 \<Rightarrow> Inr (ctx2\<lparr> writer := scope_leave (argumentsScope multi) (writer ctx2) \<rparr>)))"
proof -
  from scanDeclared_some[OF assms, of "console ctx"] obtain log' where
    "scanDeclared (map fst args) tm (console ctx) = (True, log')" by auto
  then show ?thesis by (simp add: acceptArgs_def Let_def cong: sum.case_cong)
qed

lemma acceptArgs_fails_at:
  assumes d: "\<exists>k\<in>set (map fst args). map_get tm k \<noteq> None"
    and x: "x \<in> set args" and f: "\<And>u. \<exists>e. acceptArg (Some tm) meta x u = Inl e"
  shows "\<exists>e. acceptArgs (Some args) (Some tm) meta ctx = Inl e"
proof (cases "isMultiLineJSON (JObject args)")
  case (Inl e)
  then show ?thesis by (simp add: acceptArgs_declared[OF d])
next
  case (Inr multi)
  from foldE_fails[of x args "acceptArg (Some tm) meta", OF x f]
  obtain e where "foldE (acceptArg (Some tm) meta) args
                      (ctx\<lparr> console := snd (scanDeclared (map fst args) tm (console ctx)),
                            writer := scope_enter (argumentsScope multi) (writer ctx) \<rparr>) = Inl e"
    by blast
  with Inr show ?thesis by (simp add: acceptArgs_declared[OF d])
qed

subsection \<open>An argument bound to null\<close>

lemma asParameterRef_error: "asParameterRef v = Inl e \<Longrightarrow> e = TypeError"
  by (cases v) auto

lemma asParameterRef_plain:
  "v \<noteq> JNull \<Longrightarrow> v \<noteq> JUndefined \<Longrightarrow> \<forall>n g. v \<noteq> JParameterRef n g \<Longrightarrow> asParameterRef v = Inr None"
  by (cases v) auto

lemma multiLineScan_error: "multiLineScan vs n = Inl e \<Longrightarrow> e = TypeError"
proof (induction vs arbitrary: n)
  case Nil
  then show ?case by simp
next
  case (Cons v vs)
  then show ?case
    by (auto split: if_splits sum.splits bool.splits dest: asParameterRef_error)
qed

lemma isMultiLineJSON_error: "isMultiLineJSON v = Inl e \<Longrightarrow> e = TypeError"
  by (cases v) (auto simp: isMultiLineJSON_def simp del: multiLineScan.simps
      dest: multiLineScan_error split: if_splits)

lemma writer_emit [simp]: "writer (emit v ctx) = writeText v (writer ctx)"
  by (simp add: emit_def)

lemma acceptArg_nullish:
  assumes "scopes (writer ctx) \<noteq> []" "map_get tm k = Some ty" "v = JNull \<or> v = JUndefined"
  shows "acceptArg (Some tm) meta (k, v) ctx = Inl TypeError"
proof -
  from separator_ok[OF assms(1), of None] obtain w where "separator None (writer ctx) = Inr w" by auto
  with assms(2,3) show ?thesis by (auto simp: acceptArg_def Let_def)
qed

lemma acceptArg_benign:
  assumes "scopes (writer ctx) \<noteq> []" "map_get tm k = Some ty"
    and "v \<noteq> JNull" "v \<noteq> JUndefined" "\<forall>n g. v \<noteq> JParameterRef n g"
  shows "\<exists>ctx'. acceptArg (Some tm) meta (k, v) ctx = Inr ctx' \<and> scopes (writer ctx') \<noteq> []"
proof -
  from separator_ok[OF assms(1), of None] obtain w where
    w: "separator None (writer ctx) = Inr w" "length (scopes w) = length (scopes (writer ctx))" by auto
  from acceptLiteral_ok[of v "enumMetaType meta (Some ty)" "writeText (k @ '': '') w"]
  obtain w2 where w2: "acceptLiteral v (enumMetaType meta (Some ty)) (writeText (k @ '': '') w) = Inr w2"
    "length (scopes w2) = length (scopes (writeText (k @ '': '') w))" by auto
  from w2(2) w(2) assms(1) have "scopes w2 \<noteq> []" by auto
  with w w2 assms(2) asParameterRef_plain[OF assms(3,4,5)] show ?thesis
    by (simp add: acceptArg_def Let_def)
qed

lemma foldE_acceptArg_TypeError:
  assumes "\<forall>kv\<in>set xs. map_get tm (fst kv) \<noteq> None \<and> (\<forall>n g. snd kv \<noteq> JParameterRef n g)"
    and "\<exists>kv\<in>set xs. snd kv = JNull"
    and "scopes (writer ctx) \<noteq> []"
  shows "foldE (acceptArg (Some tm) meta) xs ctx = Inl TypeError"
  using assms
proof (induction xs arbitrary: ctx)
  case Nil
  then show ?case by simp
next
  case (Cons kv xs)
  obtain k v where kv: "kv = (k, v)" by (cases kv)
  from Cons.prems(1) kv obtain ty where ty: "map_get tm k = Some ty" and nr: "\<forall>n g. v \<noteq> JParameterRef n g"
    by auto
  show ?case
  proof (cases "v = JNull \<or> v = JUndefined")
    case True
    from acceptArg_nullish[OF Cons.prems(3) ty True] show ?thesis by (simp add: kv)
  next
    case False
    then have v: "v \<noteq> JNull" "v \<noteq> JUndefined" by auto
    from acceptArg_benign[OF Cons.prems(3) ty v nr, of meta] obtain ctx' where
      c: "acceptArg (Some tm) meta (k, v) ctx = Inr ctx'" "scopes (writer ctx') \<noteq> []" by auto
    from Cons.prems(2) kv v have "\<exists>kv\<in>set xs. snd kv = JNull" by auto
    from Cons.IH[OF _ this c(2)] Cons.prems(1) c(1) show ?thesis by (simp add: kv)
  qed
qed

lemma separator_fresh_scope: "separator v (scope_enter opts w) = Inr (scope_enter opts w)"
  by (simp add: separator_def scope_enter_def Let_def)

subsection \<open>Which error an argument bundle throws\<close>

lemma foldE_append:
  "foldE f (xs @ ys) s = (case foldE f xs s of Inl e \<Rightarrow> Inl e | Inr s' \<Rightarrow> foldE f ys s')"
  by (induction xs arbitrary: s) (auto split: sum.splits)

lemma foldE_stops:
  assumes "P s" and "\<And>x u. x \<in> set pre \<Longrightarrow> P u \<Longrightarrow> \<exists>u'. f x u = Inr u' \<and> P u'"
    and "\<And>u. P u \<Longrightarrow> f y u = Inl e"
  shows "foldE f (pre @ y # post) s = Inl e"
proof -
  from foldE_total[of P s pre f, OF assms(1) assms(2)] obtain s'
    where "foldE f pre s = Inr s'" "P s'" by blast
  with assms(3)[of s'] show ?thesis by (simp add: foldE_append)
qed

lemma multiLineScan_safe:
  "\<forall>v\<in>set vs. v \<noteq> JNull \<Longrightarrow> \<exists>b. multiLineScan vs sz = Inr b"
proof (induction vs arbitrary: sz)
  case Nil
  show ?case by (intro exI[of _ False]) simp
next
  case (Cons v vs)
  then have "v \<noteq> JNull" and rest: "\<forall>v\<in>set vs. v \<noteq> JNull" by simp_all
  then have b: "(if typeof_object v
                 then (case asParameterRef v of Inl e \<Rightarrow> Inl e | Inr r \<Rightarrow> Inr (r = None))
                 else Inr False)
               = (Inr (typeof_object v \<and> (\<forall>n g. v \<noteq> JParameterRef n g)) :: error + bool)"
    by (cases v) simp_all
  from Cons.IH[OF rest, of "sz + 1"] obtain b' where "multiLineScan vs (sz + 1) = Inr b'" by blast
  with b show ?case by (cases "typeof_object v \<and> (\<forall>n g. v \<noteq> JParameterRef n g)") auto
qed

lemma multiLineScan_null:
  assumes "\<forall>v\<in>set pre. \<not> typeof_object v \<or> (\<exists>n g. v = JParameterRef n g)"
    and "sz + length pre < 3"
  shows "multiLineScan (pre @ JNull # post) sz = Inl TypeError"
  using assms
proof (induction pre arbitrary: sz)
  case Nil
  then show ?case by simp
next
  case (Cons v pre)
  then have v: "\<not> typeof_object v \<or> (\<exists>n g. v = JParameterRef n g)"
    and rest: "\<forall>v\<in>set pre. \<not> typeof_object v \<or> (\<exists>n g. v = JParameterRef n g)"
    and sz: "(sz + 1) + length pre < 3" by simp_all
  from v have step: "(if typeof_object v
                 then (case asParameterRef v of Inl e \<Rightarrow> Inl e | Inr r \<Rightarrow> Inr (r = None))
                 else Inr False) = (Inr False :: error + bool)"
    by auto
  from sz have small: "\<not> sz + 1 > 2" by simp
  from Cons.IH[OF rest sz] step small show ?case by simp
qed

lemma isMultiLineJSON_safe:
  "\<forall>kv\<in>set args. snd kv \<noteq> JNull \<Longrightarrow> \<exists>b. isMultiLineJSON (JObject args) = Inr b"
  using multiLineScan_safe[of "map snd args" 0] by (simp add: isMultiLineJSON_def)

lemma isMultiLineJSON_null:
  assumes "\<forall>kv\<in>set pre. \<not> typeof_object (snd kv) \<or> (\<exists>n g. snd kv = JParameterRef n g)"
    and "length pre < 3"
  shows "isMultiLineJSON (JObject (pre @ (k, JNull) # post)) = Inl TypeError"
  using multiLineScan_null[of "map snd pre" 0 "map snd post"] assms
  by (simp add: isMultiLineJSON_def)

lemma acceptArg_unknown:
  assumes "scopes (writer ctx) \<noteq> []" "map_get tm k = None"
  shows "acceptArg (Some tm) meta (k, v) ctx = Inl (Error (''Unknown argument '' @ squoted k))"
proof -
  from separator_ok[OF assms(1), of None] obtain w where "separator None (writer ctx) = Inr w" by auto
  with assms(2) show ?thesis by (simp add: acceptArg_def Let_def)
qed

lemma acceptArgs_unknown:
  assumes pre: "\<forall>kv\<in>set pre. map_get tm (fst kv) \<noteq> None"
    and k: "map_get tm k = None"
    and dec: "\<exists>kv\<in>set (pre @ (k, v) # post). map_get tm (fst kv) \<noteq> None"
    and plain: "\<forall>kv\<in>set (pre @ (k, v) # post).
                  snd kv \<noteq> JNull \<and> snd kv \<noteq> JUndefined \<and> (\<forall>n g. snd kv \<noteq> JParameterRef n g)"
  shows "acceptArgs (Some (pre @ (k, v) # post)) (Some tm) meta ctx
         = Inl (Error (''Unknown argument '' @ squoted k))"
proof -
  let ?args = "pre @ (k, v) # post"
  have d: "\<exists>k\<in>set (map fst ?args). map_get tm k \<noteq> None" using dec by force
  from plain have "\<forall>kv\<in>set ?args. snd kv \<noteq> JNull" by blast
  from isMultiLineJSON_safe[OF this] obtain multi where m: "isMultiLineJSON (JObject ?args) = Inr multi"
    by blast
  let ?c0 = "ctx\<lparr> console := snd (scanDeclared (map fst ?args) tm (console ctx)),
                 writer := scope_enter (argumentsScope multi) (writer ctx) \<rparr>"
  have "foldE (acceptArg (Some tm) meta) ?args ?c0 = Inl (Error (''Unknown argument '' @ squoted k))"
  proof (rule foldE_stops[where P = "\<lambda>u. scopes (writer u) \<noteq> []"])
    show "scopes (writer ?c0) \<noteq> []" by (simp add: scope_enter_def Let_def)
  next
    fix x and u :: serializeContext
    assume x: "x \<in> set pre" and u: "scopes (writer u) \<noteq> []"
    obtain a b where ab: "x = (a, b)" by (cases x)
    from x pre ab obtain ty where ty: "map_get tm a = Some ty" by force
    from x plain ab have b: "b \<noteq> JNull" "b \<noteq> JUndefined" "\<forall>n g. b \<noteq> JParameterRef n g" by force+
    from acceptArg_benign[OF u ty b, of meta] ab
    show "\<exists>u'. acceptArg (Some tm) meta x u = Inr u' \<and> scopes (writer u') \<noteq> []" by simp
  next
    fix u :: serializeContext
    assume "scopes (writer u) \<noteq> []"
    from acceptArg_unknown[OF this k]
    show "acceptArg (Some tm) meta (k, v) u = Inl (Error (''Unknown argument '' @ squoted k))" .
  qed
  with m show ?thesis by (simp add: acceptArgs_declared[OF d])
qed

text \<open>
  C3 (as the code has it). A bundle none of whose keys the field declares is tolerated:
  one warning per key is logged, no argument list is written, and \<open>acceptArgs\<close> returns
  with the writer and the variable table as they were. A bundle that holds a declared key
  and an undeclared one is not: \<open>acceptArgs\<close> throws. What it throws is the error
  \<open>Unknown argument\<close> of the first undeclared key when every value of the bundle is a
  plain literal (not \<open>null\<close>, not \<open>undefined\<close>, not a deferred-variable reference);
  otherwise an earlier read can throw first.
\<close>

theorem undeclared_args_tolerated_only_alone:
  "((\<forall>k\<in>set (map fst args). map_get tm k = None) \<longrightarrow>
      acceptArgs (Some args) (Some tm) meta ctx =
        Inr (ctx\<lparr> console := console ctx @ map (\<lambda>k. ''Unexpected argument: '' @ k) (map fst args) \<rparr>))
   \<and> ((\<exists>k\<in>set (map fst args). map_get tm k \<noteq> None) \<and> (\<exists>k\<in>set (map fst args). map_get tm k = None) \<longrightarrow>
      (\<exists>e. acceptArgs (Some args) (Some tm) meta ctx = Inl e))
   \<and> (\<forall>pre k v post.
         args = pre @ (k, v) # post
         \<and> (\<forall>kv\<in>set pre. map_get tm (fst kv) \<noteq> None) \<and> map_get tm k = None
         \<and> (\<exists>kv\<in>set args. map_get tm (fst kv) \<noteq> None)
         \<and> (\<forall>kv\<in>set args. snd kv \<noteq> JNull \<and> snd kv \<noteq> JUndefined
                              \<and> (\<forall>n g. snd kv \<noteq> JParameterRef n g))
         \<longrightarrow> acceptArgs (Some args) (Some tm) meta ctx
               = Inl (Error (''Unknown argument '' @ squoted k)))"
proof (intro conjI impI allI)
  assume "\<forall>k\<in>set (map fst args). map_get tm k = None"
  from scanDeclared_none[OF this, of "console ctx"]
  show "acceptArgs (Some args) (Some tm) meta ctx =
        Inr (ctx\<lparr> console := console ctx @ map (\<lambda>k. ''Unexpected argument: '' @ k) (map fst args) \<rparr>)"
    by (simp add: acceptArgs_def Let_def)
next
  assume a: "(\<exists>k\<in>set (map fst args). map_get tm k \<noteq> None) \<and> (\<exists>k\<in>set (map fst args). map_get tm k = None)"
  then obtain k v where kv: "(k, v) \<in> set args" "map_get tm k = None" by auto
  show "\<exists>e. acceptArgs (Some args) (Some tm) meta ctx = Inl e"
  proof (rule acceptArgs_fails_at[OF _ kv(1)])
    show "\<exists>k\<in>set (map fst args). map_get tm k \<noteq> None" using a by blast
  next
    fix u
    show "\<exists>e. acceptArg (Some tm) meta (k, v) u = Inl e"
      by (rule acceptArg_undeclared[OF kv(2)])
  qed
next
  fix pre k v post
  assume h: "args = pre @ (k, v) # post
         \<and> (\<forall>kv\<in>set pre. map_get tm (fst kv) \<noteq> None) \<and> map_get tm k = None
         \<and> (\<exists>kv\<in>set args. map_get tm (fst kv) \<noteq> None)
         \<and> (\<forall>kv\<in>set args. snd kv \<noteq> JNull \<and> snd kv \<noteq> JUndefined
                              \<and> (\<forall>n g. snd kv \<noteq> JParameterRef n g))"
  then have args: "args = pre @ (k, v) # post" by blast
  from h show "acceptArgs (Some args) (Some tm) meta ctx
               = Inl (Error (''Unknown argument '' @ squoted k))"
    unfolding args by (intro acceptArgs_unknown) blast+
qed

theorem undeclared_args_tolerated_only_alone_witness:
  "acceptArgs (Some [(''bogus'', JNumber ''1'')]) (Some [(''first'', ''Int'')]) None
     (new_SerializeContext new_TextBuilder None)
   = Inr ((new_SerializeContext new_TextBuilder None)\<lparr> console := [''Unexpected argument: bogus''] \<rparr>)
   \<and> acceptArgs (Some [(''first'', JNumber ''1''), (''bogus'', JNumber ''2'')]) (Some [(''first'', ''Int'')]) None
            (new_SerializeContext new_TextBuilder None)
       = Inl (Error (''Unknown argument '' @ squoted ''bogus''))
   \<and> acceptArgs (Some [(''id'', JNull), (''bogus'', JNumber ''1'')]) (Some [(''id'', ''ID'')]) None
            (new_SerializeContext new_TextBuilder None)
       = Inl TypeError"
proof -
  let ?c = "new_SerializeContext new_TextBuilder None"
  have a: "acceptArgs (Some [(''bogus'', JNumber ''1'')]) (Some [(''first'', ''Int'')]) None ?c
           = Inr (?c\<lparr> console := [''Unexpected argument: bogus''] \<rparr>)"
    using undeclared_args_tolerated_only_alone
            [of "[(''bogus'', JNumber ''1'')]" "[(''first'', ''Int'')]" None ?c]
    by (simp add: map_get_def new_SerializeContext_def)
  have "[(''first'', JNumber ''1''), (''bogus'', JNumber ''2'')]
          = [(''first'', JNumber ''1'')] @ (''bogus'', JNumber ''2'') # []
        \<and> (\<forall>kv\<in>set [(''first'', JNumber ''1'')]. map_get [(''first'', ''Int'')] (fst kv) \<noteq> None)
        \<and> map_get [(''first'', ''Int'')] ''bogus'' = None
        \<and> (\<exists>kv\<in>set [(''first'', JNumber ''1''), (''bogus'', JNumber ''2'')].
               map_get [(''first'', ''Int'')] (fst kv) \<noteq> None)
        \<and> (\<forall>kv\<in>set [(''first'', JNumber ''1''), (''bogus'', JNumber ''2'')].
               snd kv \<noteq> JNull \<and> snd kv \<noteq> JUndefined \<and> (\<forall>n g. snd kv \<noteq> JParameterRef n g))"
    by (simp add: map_get_def)
  with undeclared_args_tolerated_only_alone
         [of "[(''first'', JNumber ''1''), (''bogus'', JNumber ''2'')]" "[(''first'', ''Int'')]" None ?c]
  have b: "acceptArgs (Some [(''first'', JNumber ''1''), (''bogus'', JNumber ''2'')])
             (Some [(''first'', ''Int'')]) None ?c
           = Inl (Error (''Unknown argument '' @ squoted ''bogus''))"
    by blast
  have c: "acceptArgs (Some [(''id'', JNull), (''bogus'', JNumber ''1'')]) (Some [(''id'', ''ID'')]) None ?c
           = Inl TypeError"
    by code_simp
  from a b c show ?thesis by blast
qed

text \<open>
  C3 as stated fails when the bundle also holds a declared key: \<open>count\<close> declares
  \<open>first\<close>, and serializing \<open>count({first: 1, bogus: 2})\<close> throws.
\<close>

theorem undeclared_arg_beside_declared_counterexample:
  "serialize (fieldMethodCall ex_queryRoot ''count''
                [MOther (Some [(''first'', JNumber ''1''), (''bogus'', JNumber ''2'')])])
   = Inl (Error (''Unknown argument '' @ squoted ''bogus''))"
  by code_simp

text \<open>
  C9 (as the code has it). A bundle in which a declared argument is bound to \<open>null\<close> at
  the top level is never written: \<open>acceptArgs\<close> throws. The exception is the \<open>TypeError\<close>
  of the property read off \<open>null\<close> in two cases: in the heuristic, when the \<open>null\<close> is among
  the first three values and every value before it is a primitive or a deferred-variable
  reference; and in the render loop, when every key is declared and no value is a
  deferred-variable reference. Outside these cases another argument can throw its own
  error first. A \<open>null\<close> nested in an array or an object is written as the literal \<open>null\<close>.
\<close>

theorem null_argument_throws:
  assumes "(k, JNull) \<in> set args" and "map_get tm k = Some ty"
  shows "(\<exists>e. acceptArgs (Some args) (Some tm) meta ctx = Inl e)
       \<and> (\<forall>pre post. args = pre @ (k, JNull) # post \<and> length pre < 3
              \<and> (\<forall>kv\<in>set pre. \<not> typeof_object (snd kv) \<or> (\<exists>n g. snd kv = JParameterRef n g))
            \<longrightarrow> acceptArgs (Some args) (Some tm) meta ctx = Inl TypeError)
       \<and> ((\<forall>kv\<in>set args. map_get tm (fst kv) \<noteq> None \<and> (\<forall>n g. snd kv \<noteq> JParameterRef n g))
            \<longrightarrow> acceptArgs (Some args) (Some tm) meta ctx = Inl TypeError)
       \<and> acceptLiteral JNull mt w = Inr (writeText ''null'' w)
       \<and> acceptLiteral (JArray [JNull]) mt w
           = Inr (scope_leave arrayScope (writeText ''null'' (scope_enter arrayScope w)))
       \<and> acceptLiteral (JObject [(key, JNull)]) mt w
           = Inr (scope_leave plainBlockScope
                    (writeText ''null'' (writeText '': '' (writeText key (scope_enter plainBlockScope w)))))"
proof -
  have d: "\<exists>k\<in>set (map fst args). map_get tm k \<noteq> None"
    using assms by force
  have a: "\<exists>e. acceptArgs (Some args) (Some tm) meta ctx = Inl e"
  proof (rule acceptArgs_fails_at[OF d assms(1)])
    fix u
    show "\<exists>e. acceptArg (Some tm) meta (k, JNull) u = Inl e"
      by (rule acceptArg_null_fails[OF assms(2)])
  qed
  have h: "\<forall>pre post. args = pre @ (k, JNull) # post \<and> length pre < 3
              \<and> (\<forall>kv\<in>set pre. \<not> typeof_object (snd kv) \<or> (\<exists>n g. snd kv = JParameterRef n g))
            \<longrightarrow> acceptArgs (Some args) (Some tm) meta ctx = Inl TypeError"
  proof (intro allI impI)
    fix pre post
    assume p: "args = pre @ (k, JNull) # post \<and> length pre < 3
              \<and> (\<forall>kv\<in>set pre. \<not> typeof_object (snd kv) \<or> (\<exists>n g. snd kv = JParameterRef n g))"
    then have "isMultiLineJSON (JObject (pre @ (k, JNull) # post)) = Inl TypeError"
      by (intro isMultiLineJSON_null) blast+
    with p have "isMultiLineJSON (JObject args) = Inl TypeError" by simp
    then show "acceptArgs (Some args) (Some tm) meta ctx = Inl TypeError"
      by (simp add: acceptArgs_declared[OF d])
  qed
  have b: "acceptArgs (Some args) (Some tm) meta ctx = Inl TypeError"
    if ok: "\<forall>kv\<in>set args. map_get tm (fst kv) \<noteq> None \<and> (\<forall>n g. snd kv \<noteq> JParameterRef n g)"
  proof (cases "isMultiLineJSON (JObject args)")
    case (Inl e)
    with isMultiLineJSON_error[OF Inl] show ?thesis by (simp add: acceptArgs_declared[OF d])
  next
    case (Inr multi)
    have n: "\<exists>kv\<in>set args. snd kv = JNull" using assms(1) by force
    have "foldE (acceptArg (Some tm) meta) args
            (ctx\<lparr> console := snd (scanDeclared (map fst args) tm (console ctx)),
                  writer := scope_enter (argumentsScope multi) (writer ctx) \<rparr>) = Inl TypeError"
      by (rule foldE_acceptArg_TypeError[OF ok n]) (simp add: scope_enter_def Let_def)
    with Inr show ?thesis by (simp add: acceptArgs_declared[OF d])
  qed
  have c1: "acceptLiteral JNull mt w = Inr (writeText ''null'' w)" by simp
  have c2: "acceptLiteral (JArray [JNull]) mt w
           = Inr (scope_leave arrayScope (writeText ''null'' (scope_enter arrayScope w)))"
    by (simp add: separator_fresh_scope)
  have c3: "acceptLiteral (JObject [(key, JNull)]) mt w
           = Inr (scope_leave plainBlockScope
                    (writeText ''null'' (writeText '': '' (writeText key (scope_enter plainBlockScope w)))))"
    by (simp add: separator_fresh_scope)
  from a h b c1 c2 c3 show ?thesis by blast
qed

theorem null_argument_throws_witness:
  "(''id'', JNull) \<in> set [(''bogus'', JNumber ''1''), (''id'', JNull)]
   \<and> map_get [(''id'', ''ID'')] ''id'' = Some ''ID''
   \<and> typeof_object (JNumber ''1'') = False
   \<and> acceptArgs (Some [(''bogus'', JNumber ''1''), (''id'', JNull)]) (Some [(''id'', ''ID'')]) None
         (new_SerializeContext new_TextBuilder None) = Inl TypeError
   \<and> acceptArgs (Some [(''id'', JNull)]) (Some [(''id'', ''ID'')]) None
         (new_SerializeContext new_TextBuilder None) = Inl TypeError
   \<and> acceptLiteral (JArray [JNull]) None new_TextBuilder
       = Inr (scope_leave arrayScope (writeText ''null'' (scope_enter arrayScope new_TextBuilder)))"
proof -
  let ?c = "new_SerializeContext new_TextBuilder None"
  have m: "(''id'', JNull) \<in> set [(''bogus'', JNumber ''1''), (''id'', JNull)]"
    "(''id'', JNull) \<in> set [(''id'', JNull)]"
    "map_get [(''id'', ''ID'')] ''id'' = Some ''ID''" "typeof_object (JNumber ''1'') = False"
    by (simp_all add: map_get_def)
  have s1: "[(''bogus'', JNumber ''1''), (''id'', JNull)] = [(''bogus'', JNumber ''1'')] @ (''id'', JNull) # []
            \<and> length [(''bogus'', JNumber ''1'')] < 3
            \<and> (\<forall>kv\<in>set [(''bogus'', JNumber ''1'')].
                  \<not> typeof_object (snd kv) \<or> (\<exists>n g. snd kv = JParameterRef n g))"
    by simp
  from null_argument_throws[OF m(1) m(3), of None ?c None new_TextBuilder] s1
  have a: "acceptArgs (Some [(''bogus'', JNumber ''1''), (''id'', JNull)]) (Some [(''id'', ''ID'')]) None ?c
           = Inl TypeError"
    by blast
  have s2: "\<forall>kv\<in>set [(''id'', JNull)].
              map_get [(''id'', ''ID'')] (fst kv) \<noteq> None \<and> (\<forall>n g. snd kv \<noteq> JParameterRef n g)"
    by (simp add: map_get_def)
  from null_argument_throws[OF m(2) m(3), of None ?c None new_TextBuilder] s2
  have b: "acceptArgs (Some [(''id'', JNull)]) (Some [(''id'', ''ID'')]) None ?c = Inl TypeError"
    and c: "acceptLiteral (JArray [JNull]) None new_TextBuilder
       = Inr (scope_leave arrayScope (writeText ''null'' (scope_enter arrayScope new_TextBuilder)))"
    by blast+
  from m a b c show ?thesis by blast
qed

text \<open>
  C9 as stated fails on the kind of exception: in \<open>count\<close> the declared argument \<open>id\<close> is
  bound to \<open>null\<close>, but it is the fourth key, so the heuristic returns at the third and
  never reads it, and the undeclared key before it throws first: the serialization throws
  an \<open>Error\<close>, not a \<open>TypeError\<close>.
\<close>

theorem null_argument_other_error_counterexample:
  "serialize (fieldMethodCall ex_queryRoot ''count''
                [MOther (Some [(''first'', JNumber ''1''), (''after'', JString ''c''),
                               (''bogus'', JNumber ''3''), (''id'', JNull)])])
   = Inl (Error (''Unknown argument '' @ squoted ''bogus''))"
  by code_simp

subsection \<open>Named fragments\<close>

text \<open>
  C5, evaluated where it fails. The root spreads the fragment \<open>f\<close> (\<open>id\<close> of \<open>Post\<close>) and
  the fragment \<open>g\<close>, and \<open>g\<close> (\<open>title\<close> of \<open>Post\<close>) spreads the same \<open>f\<close> again. The body
  registers \<open>f\<close> and \<open>g\<close>; the first round renders both, and rendering \<open>g\<close> registers
  \<open>f\<close> in the new context; since \<open>renderedFragments.add(name)\<close> is always truthy, the
  second round renders \<open>f\<close> once more: the fragments block declares \<open>f\<close> twice.
  With \<open>g\<close> spreading a different selection under the name \<open>f\<close>, no conflict is raised
  either (each round has a fresh table of names), and the block declares \<open>f\<close> twice with
  two bodies.
\<close>

theorem named_fragment_rendered_twice:
  "(case dollar_on (addField ex_root ''title'' None None None) (OnSelection ex_fragF (Some ''f'')) of
      Inl e \<Rightarrow> False
    | Inr g \<Rightarrow>
       (case dollar_on ex_root (OnSelection ex_fragF (Some ''f'')) of
          Inl e \<Rightarrow> False
        | Inr r1 \<Rightarrow>
           (case dollar_on r1 (OnSelection g (Some ''g'')) of
              Inl e \<Rightarrow> False
            | Inr root \<Rightarrow>
               (case serialize root of
                  Inl e \<Rightarrow> False
                | Inr r \<Rightarrow>
                    fragmentText r =
                      ''fragment f on Post {'' @ [CHR 0x0A, CHR 0x09] @ ''id'' @ [CHR 0x0A] @ ''}'' @ [CHR 0x0A] @
                      ''fragment g on Post {'' @ [CHR 0x0A, CHR 0x09] @ ''title'' @ [CHR 0x0A, CHR 0x09] @
                        ''... f'' @ [CHR 0x0A] @ ''}'' @ [CHR 0x0A] @
                      ''fragment f on Post {'' @ [CHR 0x0A, CHR 0x09] @ ''id'' @ [CHR 0x0A] @ ''}'' @ [CHR 0x0A]
                    \<and> occurrences ''fragment f on '' (fragmentText r) = 2))))
   \<and> (case dollar_on (addField ex_root ''title'' None None None) (OnSelection ex_fragH (Some ''f'')) of
      Inl e \<Rightarrow> False
    | Inr g \<Rightarrow>
       (case dollar_on ex_root (OnSelection ex_fragF (Some ''f'')) of
          Inl e \<Rightarrow> False
        | Inr r1 \<Rightarrow>
           (case dollar_on r1 (OnSelection g (Some ''g'')) of
              Inl e \<Rightarrow> False
            | Inr root \<Rightarrow>
               (case serialize root of
                  Inl e \<Rightarrow> False
                | Inr r \<Rightarrow> ex_fragF \<noteq> ex_fragH \<and> occurrences ''fragment f on '' (fragmentText r) = 2))))"
  by code_simp


subsection \<open>Arguments synthesized for an association call\<close>

lemma acceptField_plain:
  assumes "fs_name e \<noteq> ''...''" "fs_args e = None" "fs_fieldOptionsValue e = None" "childSelections e = None"
  shows "\<exists>ctx'. acceptField s e ctx = Inr ctx'
           \<and> variableTypeMap ctx' = variableTypeMap ctx \<and> namedFragmentMap ctx' = namedFragmentMap ctx
           \<and> length (scopes (writer ctx')) = length (scopes (writer ctx))"
  using assms
  by (cases "argGraphQLTypes e")
     (simp_all add: acceptField_def acceptFieldHead_def acceptArgs_def acceptDirectives_def Let_def emit_def)

lemma acceptSelection_plain:
  assumes "plainEntries (buildFieldMap c)"
  shows "\<exists>ctx'. acceptSelection (Some c) ctx = Inr ctx'
           \<and> variableTypeMap ctx' = variableTypeMap ctx \<and> namedFragmentMap ctx' = namedFragmentMap ctx
           \<and> length (scopes (writer ctx')) = length (scopes (writer ctx))"
  unfolding acceptSelection_Some
proof (rule foldE_total[where P = "\<lambda>u. variableTypeMap u = variableTypeMap ctx
           \<and> namedFragmentMap u = namedFragmentMap ctx
           \<and> length (scopes (writer u)) = length (scopes (writer ctx))"])
  show "variableTypeMap ctx = variableTypeMap ctx \<and> namedFragmentMap ctx = namedFragmentMap ctx
        \<and> length (scopes (writer ctx)) = length (scopes (writer ctx))" by simp
next
  fix x and u :: serializeContext
  assume x: "x \<in> set (map snd (buildFieldMap c))"
    and u: "variableTypeMap u = variableTypeMap ctx \<and> namedFragmentMap u = namedFragmentMap ctx
           \<and> length (scopes (writer u)) = length (scopes (writer ctx))"
  from x assms have "fs_name x \<noteq> ''...''" "fs_args x = None" "fs_fieldOptionsValue x = None"
    "childSelections x = None"
    by (auto simp: plainEntries_def list_all_iff)
  from acceptField_plain[OF this, of c u] u
  show "\<exists>u'. acceptField c x u = Inr u' \<and>
            (variableTypeMap u' = variableTypeMap ctx \<and> namedFragmentMap u' = namedFragmentMap ctx
             \<and> length (scopes (writer u')) = length (scopes (writer ctx)))"
    by auto
qed


lemma multiLineScan_refs:
  "\<exists>b. multiLineScan (map ParameterRef_of ns) sz = Inr b"
  by (induction ns arbitrary: sz) (auto simp: ParameterRef_of_def)

lemma isMultiLineJSON_refs:
  "\<exists>b. isMultiLineJSON (JObject (map (\<lambda>n. (n, ParameterRef_of n)) ns)) = Inr b"
  using multiLineScan_refs[of ns 0] by (simp add: isMultiLineJSON_def comp_def)

lemma acceptArg_ref:
  assumes sc: "scopes (writer ctx) \<noteq> []" and ty: "map_get tm n = Some ty"
    and fresh: "n \<notin> fst ` set (variableTypeMap ctx)"
  shows "\<exists>ctx'. acceptArg (Some tm) meta (n, ParameterRef_of n) ctx = Inr ctx'
           \<and> variableTypeMap ctx' = variableTypeMap ctx @ [(n, ty)]
           \<and> namedFragmentMap ctx' = namedFragmentMap ctx
           \<and> length (scopes (writer ctx')) = length (scopes (writer ctx))"
proof -
  from separator_ok[OF sc, of None] obtain w
    where w: "separator None (writer ctx) = Inr w" "length (scopes w) = length (scopes (writer ctx))"
    by auto
  from fresh have "map_of (variableTypeMap ctx) n = None"
    by (simp add: map_of_eq_None_iff)
  with w ty fresh show ?thesis
    by (simp add: acceptArg_def Let_def ParameterRef_of_def map_get_def map_set_def update_append emit_def)
qed

lemma foldE_acceptArg_refs:
  assumes "distinct ns" "\<forall>n\<in>set ns. map_get tm n \<noteq> None"
    "\<forall>n\<in>set ns. n \<notin> fst ` set (variableTypeMap ctx)" "scopes (writer ctx) \<noteq> []"
  shows "\<exists>ctx'. foldE (acceptArg (Some tm) meta) (map (\<lambda>n. (n, ParameterRef_of n)) ns) ctx = Inr ctx'
           \<and> variableTypeMap ctx' = variableTypeMap ctx @ map (\<lambda>n. (n, the (map_get tm n))) ns
           \<and> namedFragmentMap ctx' = namedFragmentMap ctx
           \<and> length (scopes (writer ctx')) = length (scopes (writer ctx))"
  using assms
proof (induction ns arbitrary: ctx)
  case Nil
  then show ?case by simp
next
  case (Cons n ns)
  from Cons.prems obtain ty where ty: "map_get tm n = Some ty" by auto
  from Cons.prems have fresh: "n \<notin> fst ` set (variableTypeMap ctx)" by simp
  from acceptArg_ref[OF Cons.prems(4) ty fresh, of meta] obtain c1
    where c1: "acceptArg (Some tm) meta (n, ParameterRef_of n) ctx = Inr c1"
      "variableTypeMap c1 = variableTypeMap ctx @ [(n, ty)]"
      "namedFragmentMap c1 = namedFragmentMap ctx"
      "length (scopes (writer c1)) = length (scopes (writer ctx))"
    by blast
  have d: "distinct ns" and dec: "\<forall>m\<in>set ns. map_get tm m \<noteq> None"
    using Cons.prems by simp_all
  have fr: "\<forall>m\<in>set ns. m \<notin> fst ` set (variableTypeMap c1)"
    using Cons.prems c1(2) by auto
  have sc: "scopes (writer c1) \<noteq> []" using c1(4) Cons.prems(4) by (metis length_0_conv)
  from Cons.IH[OF d dec fr sc] obtain c2
    where c2: "foldE (acceptArg (Some tm) meta) (map (\<lambda>n. (n, ParameterRef_of n)) ns) c1 = Inr c2"
      "variableTypeMap c2 = variableTypeMap c1 @ map (\<lambda>n. (n, the (map_get tm n))) ns"
      "namedFragmentMap c2 = namedFragmentMap c1"
      "length (scopes (writer c2)) = length (scopes (writer c1))"
    by blast
  from c1 c2 ty show ?case by simp
qed


lemma acceptArgs_refs:
  assumes ne: "ns \<noteq> []" and d: "distinct ns" and dec: "\<forall>n\<in>set ns. map_get tm n \<noteq> None"
    and fr: "\<forall>n\<in>set ns. n \<notin> fst ` set (variableTypeMap ctx)"
  shows "\<exists>ctx'. acceptArgs (Some (map (\<lambda>n. (n, ParameterRef_of n)) ns)) (Some tm) meta ctx = Inr ctx'
           \<and> variableTypeMap ctx' = variableTypeMap ctx @ map (\<lambda>n. (n, the (map_get tm n))) ns
           \<and> namedFragmentMap ctx' = namedFragmentMap ctx
           \<and> length (scopes (writer ctx')) = length (scopes (writer ctx))"
proof -
  let ?synth = "map (\<lambda>n. (n, ParameterRef_of n)) ns"
  from ne obtain n rest where ns: "ns = n # rest" by (cases ns) auto
  with dec have scan: "scanDeclared (map fst ?synth) tm (console ctx) = (True, console ctx)"
    by (simp add: comp_def)
  from isMultiLineJSON_refs[of ns] obtain multi where multi: "isMultiLineJSON (JObject ?synth) = Inr multi"
    by blast
  let ?c0 = "ctx\<lparr> console := console ctx,
                 writer := scope_enter (argumentsScope multi) (writer (ctx\<lparr> console := console ctx \<rparr>)) \<rparr>"
  have sc: "scopes (writer ?c0) \<noteq> []"
    using length_scopes_enter[of "argumentsScope multi" "writer ctx"] by (auto simp del: length_scopes_enter)
  have fr0: "\<forall>n\<in>set ns. n \<notin> fst ` set (variableTypeMap ?c0)" using fr by simp
  from foldE_acceptArg_refs[OF d dec fr0 sc, of meta] obtain c2
    where c2: "foldE (acceptArg (Some tm) meta) ?synth ?c0 = Inr c2"
      "variableTypeMap c2 = variableTypeMap ?c0 @ map (\<lambda>n. (n, the (map_get tm n))) ns"
      "namedFragmentMap c2 = namedFragmentMap ?c0"
      "length (scopes (writer c2)) = length (scopes (writer ?c0))"
    by blast
  show ?thesis
    unfolding acceptArgs_def using scan multi c2 by (simp add: Let_def)
qed

lemma required_types:
  assumes "distinct (map fst am)"
  shows "map (\<lambda>n. (n, the (map_get am n))) (requiredArgNames am)
         = filter (\<lambda>(n, ty). endsWith ty ''!'') am"
proof -
  have "\<And>x. x \<in> set am \<Longrightarrow> (fst x, the (map_of am (fst x))) = x"
  proof -
    fix x assume "x \<in> set am"
    then have "(fst x, snd x) \<in> set am" by simp
    with assms have "map_of am (fst x) = Some (snd x)" by (rule_tac map_of_is_SomeI)
    then show "(fst x, the (map_of am (fst x))) = x" by simp
  qed
  then have "map (\<lambda>x. (fst x, the (map_of am (fst x)))) (filter (\<lambda>(n, ty). endsWith ty ''!'') am)
             = filter (\<lambda>(n, ty). endsWith ty ''!'') am"
    by (intro map_idI) simp
  then show ?thesis
    unfolding requiredArgNames_def map_get_def by (simp add: comp_def)
qed

lemma required_declared:
  "\<forall>n\<in>set (requiredArgNames am). map_get am n \<noteq> None"
  by (auto simp: requiredArgNames_def map_get_def map_of_eq_None_iff intro: rev_image_eqI)

lemma required_distinct: "distinct (map fst am) \<Longrightarrow> distinct (requiredArgNames am)"
  unfolding requiredArgNames_def by (rule distinct_map_filter)


lemma acceptField_association:
  assumes nm: "fs_name e = p" "p \<noteq> ''...''" "\<not> startsWith p ''...''"
    and tys: "argGraphQLTypes e = Some am"
    and args: "fs_args e = Some (map (\<lambda>n. (n, ParameterRef_of n)) (requiredArgNames am))"
    and fo: "fs_fieldOptionsValue e = None"
    and ch: "childSelections e = Some [Some child]"
    and am: "distinct (map fst am)" "requiredArgNames am \<noteq> []"
    and plain: "plainEntries (buildFieldMap child)"
    and fr: "variableTypeMap ctx = []"
  shows "\<exists>ctx'. acceptField s e ctx = Inr ctx'
           \<and> variableTypeMap ctx' = filter (\<lambda>(n, ty). endsWith ty ''!'') am
           \<and> namedFragmentMap ctx' = namedFragmentMap ctx"
proof -
  let ?c2 = "emit p ctx"
  have fr2: "\<forall>n\<in>set (requiredArgNames am). n \<notin> fst ` set (variableTypeMap ?c2)"
    using fr by (simp add: emit_def)
  from acceptArgs_refs[OF am(2) required_distinct[OF am(1)] required_declared fr2,
                       of "Some (enumInputMetadata_of s)"]
  obtain c3 where c3:
    "acceptArgs (Some (map (\<lambda>n. (n, ParameterRef_of n)) (requiredArgNames am))) (Some am)
        (Some (enumInputMetadata_of s)) ?c2 = Inr c3"
    "variableTypeMap c3 = variableTypeMap ?c2 @ map (\<lambda>n. (n, the (map_get am n))) (requiredArgNames am)"
    "namedFragmentMap c3 = namedFragmentMap ?c2"
    by blast
  have head: "acceptFieldHead s e ctx = Inr c3"
    using nm tys args fo c3(1) by (simp add: acceptFieldHead_def acceptDirectives_def Let_def)
  let ?c4 = "(emit '' '' c3)\<lparr> writer := scope_enter (blockScope True None) (writer (emit '' '' c3)) \<rparr>"
  from acceptSelection_plain[OF plain, of ?c4] obtain c5 where c5:
    "acceptSelection (Some child) ?c4 = Inr c5"
    "variableTypeMap c5 = variableTypeMap ?c4" "namedFragmentMap c5 = namedFragmentMap ?c4"
    by blast
  have v: "variableTypeMap c5 = filter (\<lambda>(n, ty). endsWith ty ''!'') am"
    using c5(2) c3(2) fr required_types[OF am(1)] by (simp add: emit_def)
  have n: "namedFragmentMap c5 = namedFragmentMap ctx"
    using c5(3) c3(3) by (simp add: emit_def)
  show ?thesis
    unfolding acceptField_def using nm ch head c5(1) v n
    by (simp add: emit_def)
qed

lemma buildFieldMap_association:
  assumes "p \<noteq> []" "\<not> startsWith p ''...''"
  shows "buildFieldMap (addField (createSelection T meta u) p args (Some child) None)
         = [(p, fieldEntry (addField (createSelection T meta u) p args (Some child) None))]"
  using assms
  by (simp add: buildFieldMap_def addField_def createSelection_def replay_def replayNode_def
                nodeKey_def map_set_def Let_def)


lemma serialize_association:
  assumes pn: "p \<noteq> []" "\<not> startsWith p ''...''"
    and fld: "map_get (fields_of T) p = Some fld"
    and am: "distinct (map fst (argGraphQLTypeMap fld))" "requiredArgNames (argGraphQLTypeMap fld) \<noteq> []"
    and plain: "plainEntries (buildFieldMap child)"
  shows "\<exists>r. serialize (addField (createSelection T meta None) p
                  (Some (map (\<lambda>n. (n, ParameterRef_of n)) (requiredArgNames (argGraphQLTypeMap fld))))
                  (Some child) None) = Inr r
             \<and> sr_variableTypeMap r = filter (\<lambda>(n, ty). endsWith ty ''!'') (argGraphQLTypeMap fld)"
proof -
  let ?am = "argGraphQLTypeMap fld"
  let ?s = "addField (createSelection T meta None) p
              (Some (map (\<lambda>n. (n, ParameterRef_of n)) (requiredArgNames ?am))) (Some child) None"
  let ?e = "fieldEntry ?s"
  have fm: "buildFieldMap ?s = [(p, ?e)]" by (rule buildFieldMap_association[OF pn])
  have dm: "buildDirectiveMap ?s = []"
    by (simp add: buildDirectiveMap_def addField_def createSelection_def)
  have st: "schemaType_of ?s = T" by (simp add: addField_def createSelection_def)
  have p3: "p \<noteq> ''...''" using pn(2) by (auto simp: startsWith_def)
  let ?c0 = "new_SerializeContext new_TextBuilder None"
  let ?c1 = "?c0\<lparr> writer := scope_enter (blockScope True (Some [CHR 0x0A])) (writer ?c0) \<rparr>"
  have v1: "variableTypeMap ?c1 = []" by (simp add: new_SerializeContext_def)
  have e1: "fs_name ?e = p" and e2: "argGraphQLTypes ?e = Some ?am"
    and e3: "fs_args ?e = Some (map (\<lambda>n. (n, ParameterRef_of n)) (requiredArgNames ?am))"
    and e4: "fs_fieldOptionsValue ?e = None" and e5: "childSelections ?e = Some [Some child]"
    using fld by (simp_all add: fieldEntry_def addField_def createSelection_def)
  from acceptField_association[OF e1 p3 pn(2) e2 e3 e4 e5 am plain v1, of ?s]
  obtain c2 where c2: "acceptField ?s ?e ?c1 = Inr c2"
      "variableTypeMap c2 = filter (\<lambda>(n, ty). endsWith ty ''!'') ?am"
      "namedFragmentMap c2 = namedFragmentMap ?c1"
    by blast
  have sel: "acceptSelection (Some ?s) ?c1 = Inr c2"
    unfolding acceptSelection_Some fm using c2(1) by simp
  let ?c3 = "c2\<lparr> writer := scope_leave (blockScope True (Some [CHR 0x0A])) (writer c2) \<rparr>"
  have "namedFragmentMap ?c3 = []" using c2(3) by (simp add: new_SerializeContext_def)
  from drain_empty[OF this] have dr: "drain ?c3 new_TextBuilder [] = Inr (?c3, new_TextBuilder)" .
  have dir: "acceptDirectives (Some []) ?c0 = Inr ?c0" by (simp add: acceptDirectives_def)
  show ?thesis
    unfolding serialize_def dm Let_def dir using sel dr c2(2) by simp
qed



subsection \<open>Builders allocate, getters fill their own memo\<close>

lemma readonly_members:
  assumes "readonly a = readonly b"
  shows "n_ctx a = n_ctx b" "n_negative a = n_negative b" "n_field a = n_field b"
    "n_args a = n_args b" "n_child a = n_child b" "n_fieldOptionsValue a = n_fieldOptionsValue b"
    "n_directive a = n_directive b" "n_directiveArgs a = n_directiveArgs b"
proof -
  have "n_ctx (readonly a) = n_ctx (readonly b)" using assms by simp
  then show "n_ctx a = n_ctx b" by (simp add: readonly_def)
  have "n_negative (readonly a) = n_negative (readonly b)" using assms by simp
  then show "n_negative a = n_negative b" by (simp add: readonly_def)
  have "n_field (readonly a) = n_field (readonly b)" using assms by simp
  then show "n_field a = n_field b" by (simp add: readonly_def)
  have "n_args (readonly a) = n_args (readonly b)" using assms by simp
  then show "n_args a = n_args b" by (simp add: readonly_def)
  have "n_child (readonly a) = n_child (readonly b)" using assms by simp
  then show "n_child a = n_child b" by (simp add: readonly_def)
  have "n_fieldOptionsValue (readonly a) = n_fieldOptionsValue (readonly b)" using assms by simp
  then show "n_fieldOptionsValue a = n_fieldOptionsValue b" by (simp add: readonly_def)
  have "n_directive (readonly a) = n_directive (readonly b)" using assms by simp
  then show "n_directive a = n_directive b" by (simp add: readonly_def)
  have "n_directiveArgs (readonly a) = n_directiveArgs (readonly b)" using assms by simp
  then show "n_directiveArgs a = n_directiveArgs b" by (simp add: readonly_def)
qed

lemma sel_of_frame:
  assumes len: "length h \<le> length h'"
    and ro: "\<And>i. i < length h \<Longrightarrow> readonly (h' ! i) = readonly (h ! i)"
    and r: "r < length h"
  shows "sel_of h' r = sel_of h r"
  using r
proof (induction r rule: less_induct)
  case (less r)
  note m = readonly_members[OF ro[OF less.prems]]
  have r': "r < length h'" using less.prems len by simp
  have ctx: "(case n_ctx (h ! r) of
                Inl p \<Rightarrow> if p < r then map_option Prev (sel_of h' p) else None
              | Inr (t, m, u) \<Rightarrow> Some (Root t m u))
           = (case n_ctx (h ! r) of
                Inl p \<Rightarrow> if p < r then map_option Prev (sel_of h p) else None
              | Inr (t, m, u) \<Rightarrow> Some (Root t m u))"
    using less.IH less.prems by (cases "n_ctx (h ! r)") auto
  have ch: "(case n_child (h ! r) of
               None \<Rightarrow> Some None
             | Some c \<Rightarrow> if c < r then map_option Some (sel_of h' c) else None)
          = (case n_child (h ! r) of
               None \<Rightarrow> Some None
             | Some c \<Rightarrow> if c < r then map_option Some (sel_of h c) else None)"
    using less.IH less.prems by (cases "n_child (h ! r)") auto
  show ?case
    by (subst sel_of.simps, subst (2) sel_of.simps) (simp only: m ctx ch r' less.prems if_True)
qed

lemma sel_of_outside: "\<not> r < length h \<Longrightarrow> sel_of h r = None"
  by (subst sel_of.simps) simp

lemma fieldMap_value:
  "map_sum id fst (get_fieldMap r h)
   = (case sel_of h r of
        None \<Rightarrow> Inl TypeError
      | Some s \<Rightarrow> Inr (case memo_fieldMap (h ! r) of Some m \<Rightarrow> m | None \<Rightarrow> buildFieldMap s))"
  by (simp add: get_fieldMap_def Let_def split: option.splits)

lemma directiveMap_value:
  "map_sum id fst (get_directiveMap r h)
   = (case sel_of h r of
        None \<Rightarrow> Inl TypeError
      | Some s \<Rightarrow> Inr (case memo_directiveMap (h ! r) of Some m \<Rightarrow> m | None \<Rightarrow> buildDirectiveMap s))"
  by (simp add: get_directiveMap_def Let_def split: option.splits)

lemma preserved_refl: "preserved h h"
  by (simp add: preserved_def)

lemma preserved_trans: "preserved h h1 \<Longrightarrow> preserved h1 h2 \<Longrightarrow> preserved h h2"
  unfolding preserved_def by (metis (no_types, lifting) le_trans less_le_trans)

lemma preserved_new: "preserved h (snd (new_SelectionImpl ctx neg fld args child fo d da h))"
proof -
  let ?h' = "snd (new_SelectionImpl ctx neg fld args child fo d da h)"
  have nth: "\<And>i. i < length h \<Longrightarrow> ?h' ! i = h ! i"
    by (simp add: new_SelectionImpl_def nth_append)
  have len: "length h \<le> length ?h'" by (simp add: new_SelectionImpl_def)
  have sel: "\<And>i. i < length h \<Longrightarrow> sel_of ?h' i = sel_of h i"
    by (rule sel_of_frame[OF len]) (simp_all add: nth)
  show ?thesis
    unfolding preserved_def fieldMap_value directiveMap_value using len nth sel
    by (simp cong: option.case_cong)
qed

lemma preserved_memo_fieldMap:
  assumes s: "sel_of h this = Some s" and m: "memo_fieldMap (h ! this) = None"
  shows "preserved h (h[this := (h ! this)\<lparr> memo_fieldMap := Some (buildFieldMap s) \<rparr>])"
proof -
  let ?h' = "h[this := (h ! this)\<lparr> memo_fieldMap := Some (buildFieldMap s) \<rparr>]"
  have this_in: "this < length h" using s sel_of_outside[of this h] by (cases "this < length h") auto
  have ro: "\<And>i. i < length h \<Longrightarrow> readonly (?h' ! i) = readonly (h ! i)"
    using this_in by (simp add: nth_list_update readonly_def)
  have sel: "\<And>i. i < length h \<Longrightarrow> sel_of ?h' i = sel_of h i"
    by (rule sel_of_frame) (simp_all add: ro)
  have fm: "\<And>i. i < length h \<Longrightarrow>
      (case memo_fieldMap (?h' ! i) of Some m \<Rightarrow> m | None \<Rightarrow> buildFieldMap (the (sel_of h i)))
      = (case memo_fieldMap (h ! i) of Some m \<Rightarrow> m | None \<Rightarrow> buildFieldMap (the (sel_of h i)))"
    using s m this_in by (auto simp: nth_list_update)
  have dm: "\<And>i. i < length h \<Longrightarrow> memo_directiveMap (?h' ! i) = memo_directiveMap (h ! i)"
    using this_in by (simp add: nth_list_update)
  show ?thesis
    unfolding preserved_def fieldMap_value directiveMap_value
  proof (intro conjI allI impI)
    show "length h \<le> length ?h'" by simp
  next
    fix i assume i: "i < length h"
    show "readonly (?h' ! i) = readonly (h ! i)" by (rule ro[OF i])
    show "(case sel_of ?h' i of None \<Rightarrow> Inl TypeError
           | Some s \<Rightarrow> Inr (case memo_fieldMap (?h' ! i) of Some m \<Rightarrow> m | None \<Rightarrow> buildFieldMap s))
        = (case sel_of h i of None \<Rightarrow> Inl TypeError
           | Some s \<Rightarrow> Inr (case memo_fieldMap (h ! i) of Some m \<Rightarrow> m | None \<Rightarrow> buildFieldMap s))"
      using fm[OF i] unfolding sel[OF i] by (cases "sel_of h i") (simp_all cong: option.case_cong)
    show "(case sel_of ?h' i of None \<Rightarrow> Inl TypeError
           | Some s \<Rightarrow> Inr (case memo_directiveMap (?h' ! i) of Some m \<Rightarrow> m | None \<Rightarrow> buildDirectiveMap s))
        = (case sel_of h i of None \<Rightarrow> Inl TypeError
           | Some s \<Rightarrow> Inr (case memo_directiveMap (h ! i) of Some m \<Rightarrow> m | None \<Rightarrow> buildDirectiveMap s))"
      unfolding sel[OF i] dm[OF i] ..
  qed
qed

lemma preserved_memo_directiveMap:
  assumes s: "sel_of h this = Some s" and m: "memo_directiveMap (h ! this) = None"
  shows "preserved h (h[this := (h ! this)\<lparr> memo_directiveMap := Some (buildDirectiveMap s) \<rparr>])"
proof -
  let ?h' = "h[this := (h ! this)\<lparr> memo_directiveMap := Some (buildDirectiveMap s) \<rparr>]"
  have this_in: "this < length h" using s sel_of_outside[of this h] by (cases "this < length h") auto
  have ro: "\<And>i. i < length h \<Longrightarrow> readonly (?h' ! i) = readonly (h ! i)"
    using this_in by (simp add: nth_list_update readonly_def)
  have sel: "\<And>i. i < length h \<Longrightarrow> sel_of ?h' i = sel_of h i"
    by (rule sel_of_frame) (simp_all add: ro)
  have dm: "\<And>i. i < length h \<Longrightarrow>
      (case memo_directiveMap (?h' ! i) of Some m \<Rightarrow> m | None \<Rightarrow> buildDirectiveMap (the (sel_of h i)))
      = (case memo_directiveMap (h ! i) of Some m \<Rightarrow> m | None \<Rightarrow> buildDirectiveMap (the (sel_of h i)))"
    using s m this_in by (auto simp: nth_list_update)
  have fm: "\<And>i. i < length h \<Longrightarrow> memo_fieldMap (?h' ! i) = memo_fieldMap (h ! i)"
    using this_in by (simp add: nth_list_update)
  show ?thesis
    unfolding preserved_def fieldMap_value directiveMap_value
  proof (intro conjI allI impI)
    show "length h \<le> length ?h'" by simp
  next
    fix i assume i: "i < length h"
    show "readonly (?h' ! i) = readonly (h ! i)" by (rule ro[OF i])
    show "(case sel_of ?h' i of None \<Rightarrow> Inl TypeError
           | Some s \<Rightarrow> Inr (case memo_directiveMap (?h' ! i) of Some m \<Rightarrow> m | None \<Rightarrow> buildDirectiveMap s))
        = (case sel_of h i of None \<Rightarrow> Inl TypeError
           | Some s \<Rightarrow> Inr (case memo_directiveMap (h ! i) of Some m \<Rightarrow> m | None \<Rightarrow> buildDirectiveMap s))"
      using dm[OF i] unfolding sel[OF i] by (cases "sel_of h i") (simp_all cong: option.case_cong)
    show "(case sel_of ?h' i of None \<Rightarrow> Inl TypeError
           | Some s \<Rightarrow> Inr (case memo_fieldMap (?h' ! i) of Some m \<Rightarrow> m | None \<Rightarrow> buildFieldMap s))
        = (case sel_of h i of None \<Rightarrow> Inl TypeError
           | Some s \<Rightarrow> Inr (case memo_fieldMap (h ! i) of Some m \<Rightarrow> m | None \<Rightarrow> buildFieldMap s))"
      unfolding sel[OF i] fm[OF i] ..
  qed
qed

lemma new_SelectionImpl_result:
  assumes "new_SelectionImpl ctx neg fld args child fo d da h = (n, h1)"
  shows "n = length h \<and> preserved h h1"
proof -
  have "h1 = snd (new_SelectionImpl ctx neg fld args child fo d da h)" using assms by simp
  moreover have "n = length h" using assms by (simp add: new_SelectionImpl_def)
  ultimately show ?thesis using preserved_new by simp
qed

lemma removeField_h_result:
  assumes "removeField_h this fld h = Inr (n, h1)"
  shows "n = length h \<and> preserved h h1"
  using assms new_SelectionImpl_result
  by (auto simp: removeField_h_def split: if_splits)

lemma addEmbeddable_h_result:
  assumes "addEmbeddable_h this child fragmentName h = Inr (n, h1)"
  shows "n = length h \<and> preserved h h1"
  using assms new_SelectionImpl_result
  by (auto simp: addEmbeddable_h_def split: option.splits if_splits)

lemma get_fieldMap_result:
  assumes "get_fieldMap this h = Inr (m, h1)"
  shows "preserved h h1"
  using assms preserved_refl preserved_memo_fieldMap
  by (auto simp: get_fieldMap_def Let_def split: option.splits)

lemma get_directiveMap_result:
  assumes "get_directiveMap this h = Inr (m, h1)"
  shows "preserved h h1"
  using assms preserved_refl preserved_memo_directiveMap
  by (auto simp: get_directiveMap_def Let_def split: option.splits)

lemma exec_preserved:
  assumes "exec c h = Inr (v, h1)"
  shows "preserved h h1 \<and> fresh_for h v"
proof (cases c)
  case (CreateSelection t m u)
  obtain n h' where n: "createSelection_h t m u h = (n, h')" by (cases "createSelection_h t m u h")
  from new_SelectionImpl_result[OF n[unfolded createSelection_h_def]] n assms CreateSelection
  show ?thesis by (auto simp: fresh_for_def)
next
  case (AddField this fld args child opts)
  obtain n h' where n: "addField_h this fld args child opts h = (n, h')"
    by (cases "addField_h this fld args child opts h")
  from new_SelectionImpl_result[OF n[unfolded addField_h_def]] n assms AddField
  show ?thesis by (auto simp: fresh_for_def on_receiver_def split: if_splits)
next
  case (RemoveField this fld)
  with assms obtain n where n: "removeField_h this fld h = Inr (n, h1)" "v = NodeRef n"
    by (cases "removeField_h this fld h") (auto simp: on_receiver_def split: if_splits)
  from removeField_h_result[OF n(1)] n(2) show ?thesis by (simp add: fresh_for_def)
next
  case (AddEmbeddable this child fragmentName)
  with assms obtain n where n: "addEmbeddable_h this child fragmentName h = Inr (n, h1)" "v = NodeRef n"
    by (cases "addEmbeddable_h this child fragmentName h") (auto simp: on_receiver_def split: if_splits)
  from addEmbeddable_h_result[OF n(1)] n(2) show ?thesis by (simp add: fresh_for_def)
next
  case (AddDirective this directive directiveArgs)
  obtain n h' where n: "addDirective_h this directive directiveArgs h = (n, h')"
    by (cases "addDirective_h this directive directiveArgs h")
  from new_SelectionImpl_result[OF n[unfolded addDirective_h_def]] n assms AddDirective
  show ?thesis by (auto simp: fresh_for_def on_receiver_def split: if_splits)
next
  case (FieldMap this)
  with assms obtain m where m: "get_fieldMap this h = Inr (m, h1)" "v = FieldMapValue m"
    by (cases "get_fieldMap this h") auto
  from get_fieldMap_result[OF m(1)] m(2) show ?thesis by (simp add: fresh_for_def)
next
  case (DirectiveMap this)
  with assms obtain m where m: "get_directiveMap this h = Inr (m, h1)" "v = DirectiveMapValue m"
    by (cases "get_directiveMap this h") auto
  from get_directiveMap_result[OF m(1)] m(2) show ?thesis by (simp add: fresh_for_def)
qed

lemma fresh_for_earlier: "length h \<le> length h1 \<Longrightarrow> fresh_for h1 v \<Longrightarrow> fresh_for h v"
  by (cases v) (simp_all add: fresh_for_def)

lemma run_preserved:
  assumes "run cs h = Inr (vs, h')"
  shows "preserved h h' \<and> list_all (fresh_for h) vs"
  using assms
proof (induction cs arbitrary: h vs)
  case Nil
  then show ?case by (simp add: preserved_refl)
next
  case (Cons c cs)
  from Cons.prems obtain v h1 vs1 where e: "exec c h = Inr (v, h1)"
    and r: "run cs h1 = Inr (vs1, h')" and vs: "vs = v # vs1"
    by (auto split: sum.splits prod.splits)
  from exec_preserved[OF e] have p1: "preserved h h1" and f1: "fresh_for h v" by simp_all
  from Cons.IH[OF r] have p2: "preserved h1 h'" and f2: "list_all (fresh_for h1) vs1" by simp_all
  have len: "length h \<le> length h1" using p1 by (simp add: preserved_def)
  have "list_all (fresh_for h) vs1"
    using f2 fresh_for_earlier[OF len] by (auto simp: list_all_iff)
  with preserved_trans[OF p1 p2] f1 vs show ?case by simp
qed

text \<open>The object a builder allocates holds the value the builder of the value model returns.\<close>

lemma sel_of_new:
  assumes s: "sel_of h this = Some s"
    and c: "rel_option (\<lambda>c v. sel_of h c = Some v) child cv"
  shows "sel_of (snd (new_SelectionImpl (Inl this) neg fld args child fo d da h)) (length h)
         = Some (SelectionImpl (Prev s) neg fld args cv fo d da)"
proof -
  let ?h' = "snd (new_SelectionImpl (Inl this) neg fld args child fo d da h)"
  have inside: "\<And>r v. sel_of h r = Some v \<Longrightarrow> r < length h"
    using sel_of_outside by (metis option.distinct(1))
  have keep: "\<And>r. r < length h \<Longrightarrow> sel_of ?h' r = sel_of h r"
    by (rule sel_of_frame) (simp_all add: new_SelectionImpl_def nth_append)
  have t: "this < length h" "sel_of ?h' this = Some s"
    using inside[OF s] keep s by simp_all
  have ch: "(case child of
               None \<Rightarrow> Some None
             | Some c \<Rightarrow> if c < length h then map_option Some (sel_of ?h' c) else None) = Some cv"
  proof (cases child)
    case None
    with c show ?thesis by simp
  next
    case (Some r)
    with c obtain v where v: "cv = Some v" "sel_of h r = Some v" by (cases cv) auto
    with Some inside[OF v(2)] keep show ?thesis by simp
  qed
  have last: "?h' ! length h =
      \<lparr> n_ctx = Inl this, n_negative = neg, n_field = fld, n_args = args, n_child = child,
        n_fieldOptionsValue = fo, n_directive = d, n_directiveArgs = da,
        memo_fieldMap = None, memo_directiveMap = None \<rparr>"
    and len: "length h < length ?h'"
    by (simp_all add: new_SelectionImpl_def)
  show ?thesis
    by (subst sel_of.simps) (simp add: last len t ch)
qed

lemma addField_h_refines:
  assumes "sel_of h this = Some s" "rel_option (\<lambda>c v. sel_of h c = Some v) child cv"
  shows "sel_of (snd (addField_h this fld args child opts h)) (fst (addField_h this fld args child opts h))
         = Some (addField s fld args cv opts)"
proof -
  have "fst (addField_h this fld args child opts h) = length h"
    by (simp add: addField_h_def new_SelectionImpl_def)
  with sel_of_new[OF assms] show ?thesis by (simp add: addField_h_def addField_def)
qed

lemma addDirective_h_refines:
  assumes "sel_of h this = Some s"
  shows "sel_of (snd (addDirective_h this directive args h)) (fst (addDirective_h this directive args h))
         = Some (addDirective s directive args)"
proof -
  have "fst (addDirective_h this directive args h) = length h"
    by (simp add: addDirective_h_def new_SelectionImpl_def)
  with sel_of_new[OF assms, of None None] show ?thesis
    by (simp add: addDirective_h_def addDirective_def)
qed

lemma removeField_h_refines:
  assumes "sel_of h this = Some s"
  shows "(case removeField_h this fld h of
            Inl e \<Rightarrow> removeField s fld = Inl e
          | Inr (n, h1) \<Rightarrow> map_option Inr (sel_of h1 n) = Some (removeField s fld))"
proof (cases "fld = ''__typename''")
  case True
  then show ?thesis by (simp add: removeField_h_def removeField_def)
next
  case False
  obtain n h1 where n: "new_SelectionImpl (Inl this) True fld None None None None None h = (n, h1)"
    by (cases "new_SelectionImpl (Inl this) True fld None None None None None h")
  then have "n = length h" by (simp add: new_SelectionImpl_def)
  with sel_of_new[OF assms, of None None True fld None None None None] n False
  show ?thesis by (simp add: removeField_h_def removeField_def)
qed

subsection \<open>Fan-out from a shared base\<close>

text \<open>
  C8. Let a program of builder calls and getter reads (on any nodes, in any order, so in
  particular building two extensions on one base and evaluating them) run without throwing
  from a heap \<open>h\<close> to a heap \<open>h'\<close>. Then every node \<open>r\<close> of \<open>h\<close>, be it the base, a receiver or
  an ancestor, still has the read-only members it had, stands for the same selection, and
  its getters \<open>fieldMap\<close> and \<open>directiveMap\<close> return what they returned in \<open>h\<close>; and every
  node a builder returned is a new one, not a node of \<open>h\<close>.
\<close>

theorem builders_and_getters_leave_nodes_unchanged:
  assumes "run cs h = Inr (vs, h')" and "r < length h"
  shows "readonly (h' ! r) = readonly (h ! r)
       \<and> sel_of h' r = sel_of h r
       \<and> map_sum id fst (get_fieldMap r h') = map_sum id fst (get_fieldMap r h)
       \<and> map_sum id fst (get_directiveMap r h') = map_sum id fst (get_directiveMap r h)
       \<and> list_all (fresh_for h) vs"
proof -
  from run_preserved[OF assms(1)] have p: "preserved h h'" and f: "list_all (fresh_for h) vs"
    by simp_all
  from p have len: "length h \<le> length h'"
    and ro: "\<And>i. i < length h \<Longrightarrow> readonly (h' ! i) = readonly (h ! i)"
    by (simp_all add: preserved_def)
  have "sel_of h' r = sel_of h r" by (rule sel_of_frame[OF len ro assms(2)])
  with p f assms(2) show ?thesis by (simp add: preserved_def)
qed

theorem builders_and_getters_leave_nodes_unchanged_witness:
  "1 < length ex_baseHeap
   \<and> sel_of ex_baseHeap 1 = Some ex_base
   \<and> (\<exists>vs h'. run ex_fanOut ex_baseHeap = Inr (vs, h')
          \<and> vs ! 0 = NodeRef 2 \<and> vs ! 1 = NodeRef 3 \<and> vs ! 4 = NodeRef 4
          \<and> vs ! 2 = FieldMapValue (buildFieldMap (addField ex_base ''content'' None None None))
          \<and> vs ! 3 = FieldMapValue []
          \<and> vs ! 5 = DirectiveMapValue [(''skip'', None)]
          \<and> readonly (h' ! 1) = readonly (ex_baseHeap ! 1)
          \<and> sel_of h' 1 = Some ex_base
          \<and> map_sum id fst (get_fieldMap 1 h') = Inr (buildFieldMap ex_base)
          \<and> map_sum id fst (get_directiveMap 1 h') = Inr []
          \<and> list_all (fresh_for ex_baseHeap) vs)"
proof -
  have len: "1 < length ex_baseHeap" by code_simp
  have base: "sel_of ex_baseHeap 1 = Some ex_base"
    "map_sum id fst (get_fieldMap 1 ex_baseHeap) = Inr (buildFieldMap ex_base)"
    "map_sum id fst (get_directiveMap 1 ex_baseHeap) = Inr []"
    by code_simp+
  have ran: "case run ex_fanOut ex_baseHeap of
               Inl e \<Rightarrow> False
             | Inr (vs, h') \<Rightarrow>
                 vs ! 0 = NodeRef 2 \<and> vs ! 1 = NodeRef 3 \<and> vs ! 4 = NodeRef 4
                 \<and> vs ! 2 = FieldMapValue (buildFieldMap (addField ex_base ''content'' None None None))
                 \<and> vs ! 3 = FieldMapValue []
                 \<and> vs ! 5 = DirectiveMapValue [(''skip'', None)]"
    by code_simp
  then obtain vs h' where r: "run ex_fanOut ex_baseHeap = Inr (vs, h')"
    and out: "vs ! 0 = NodeRef 2" "vs ! 1 = NodeRef 3" "vs ! 4 = NodeRef 4"
      "vs ! 2 = FieldMapValue (buildFieldMap (addField ex_base ''content'' None None None))"
      "vs ! 3 = FieldMapValue []" "vs ! 5 = DirectiveMapValue [(''skip'', None)]"
    by (cases "run ex_fanOut ex_baseHeap") auto
  from builders_and_getters_leave_nodes_unchanged[OF r len]
  have kept: "readonly (h' ! 1) = readonly (ex_baseHeap ! 1)"
    "sel_of h' 1 = sel_of ex_baseHeap 1"
    "map_sum id fst (get_fieldMap 1 h') = map_sum id fst (get_fieldMap 1 ex_baseHeap)"
    "map_sum id fst (get_directiveMap 1 h') = map_sum id fst (get_directiveMap 1 ex_baseHeap)"
    "list_all (fresh_for ex_baseHeap) vs"
    by simp_all
  show ?thesis
    using len base(1) r out kept unfolding base by blast
qed

end
